theory Spec2Isabelle
  imports Main "HOL-Library.AList" "HOL-Library.Sublist"
begin

section \<open>StreamlitProcurement: document extraction and template fill\<close>

text \<open>
  A shallow embedding of \<^verbatim>\<open>StreamlitProcurement.py\<close>. The script is a Streamlit page
  that is re-run from top to bottom on every interaction; its only memory between runs
  is \<^verbatim>\<open>st.session_state\<close>. Python strings are modelled as \<^typ>\<open>string\<close> (lists of
  8-bit characters, so code points beyond Latin-1 are outside the model).
\<close>

subsection \<open>Python string operations\<close>

text \<open>
  \<^verbatim>\<open>text.split(sep)\<close> for a non-empty separator: the text is scanned from the left, every
  occurrence of the separator ends a piece and the scan resumes behind it. The separator
  is given as its first character and its rest, so that it cannot be empty (Python raises
  \<^verbatim>\<open>ValueError\<close> on an empty separator; the script never passes one).
\<close>

function split_on :: "char \<Rightarrow> string \<Rightarrow> string \<Rightarrow> string list" where
  "split_on c cs [] = [[]]"
| "split_on c cs (x # xs) =
     (if prefix (c # cs) (x # xs) then [] # split_on c cs (drop (length cs) xs)
      else (case split_on c cs xs of [] \<Rightarrow> [[x]] | p # ps \<Rightarrow> (x # p) # ps))"
  by pat_completeness auto
termination
  by (relation "measure (\<lambda>(c, cs, t). length t)") auto

text \<open>\<^verbatim>\<open>sep.join(xs)\<close>\<close>

fun join :: "string \<Rightarrow> string list \<Rightarrow> string" where
  "join sep [] = []"
| "join sep [x] = x"
| "join sep (x # y # ys) = x @ sep @ join sep (y # ys)"

definition newline :: char where
  "newline = CHR 0x0A"

text \<open>\<^verbatim>\<open>text.split("\n")\<close>\<close>

definition split_lines :: "string \<Rightarrow> string list" where
  "split_lines t = split_on newline [] t"

text \<open>
  \<^verbatim>\<open>text.strip()\<close> removes leading and trailing whitespace. \<open>isspace\<close> lists the
  characters below 256 that Python's \<^verbatim>\<open>str.isspace\<close> accepts.
\<close>

definition isspace :: "char \<Rightarrow> bool" where
  "isspace c = (of_char c \<in> {9, 10, 11, 12, 13, 28, 29, 30, 31, 32, 133, 160 :: nat})"

definition strip :: "string \<Rightarrow> string" where
  "strip s = rev (dropWhile isspace (rev (dropWhile isspace s)))"

subsection \<open>Exceptions\<close>

text \<open>
  A call into a third-party library (the PDF and DOCX parsers, the splitter, the remote
  model, the workbook library) either returns or raises; \<open>Library_Error\<close> is an
  exception raised by such a call, named by its message or class, and \<open>Key_Error\<close> is
  Python's \<^verbatim>\<open>KeyError\<close>. The script catches no exception, so a raised one ends the run.
\<close>

datatype failure = Library_Error string | Key_Error string

subsection \<open>The worksheet\<close>

text \<open>
  The workbook library keeps the cells of a worksheet in a dictionary keyed by
  \<open>(row, column)\<close>, both counted from 1. A cell that is not in the dictionary reads as an
  empty cell (value \<^verbatim>\<open>None\<close>, default alignment). Of a cell only its value and the
  \<^verbatim>\<open>wrap_text\<close> flag of its alignment are modelled.
\<close>

datatype cell_value = Blank | Text string | Number int

record cell =
  cvalue :: cell_value
  wrap_text :: bool

type_synonym sheet = "((nat \<times> nat) \<times> cell) list"

definition empty_cell :: cell where
  "empty_cell = \<lparr>cvalue = Blank, wrap_text = False\<rparr>"

definition get_cell :: "sheet \<Rightarrow> nat \<Rightarrow> nat \<Rightarrow> cell" where
  "get_cell sh r c = (case map_of sh (r, c) of None \<Rightarrow> empty_cell | Some x \<Rightarrow> x)"

text \<open>
  \<^verbatim>\<open>sheet.max_column\<close>: 1 for a sheet without cells, otherwise the largest column index
  of a cell.
\<close>

definition max_column :: "sheet \<Rightarrow> nat" where
  "max_column sh = (case map (snd \<circ> fst) sh of [] \<Rightarrow> 1 | c # cs \<Rightarrow> fold max cs c)"

text \<open>
  A string that is assigned to a cell goes through the workbook library's
  \<^verbatim>\<open>check_string\<close>: the value is cut at 32767 characters, and the cut value is rejected
  with \<^verbatim>\<open>IllegalCharacterError\<close> when it holds a control character that a worksheet
  cannot hold (the codes 0 to 8, 11, 12 and 14 to 31; tab, newline and carriage return are
  accepted).
\<close>

definition illegal_character :: "char \<Rightarrow> bool" where
  "illegal_character c =
     (let n = (of_char c :: nat) in n \<le> 8 \<or> n = 11 \<or> n = 12 \<or> (14 \<le> n \<and> n \<le> 31))"

definition check_string :: "string \<Rightarrow> failure + string" where
  "check_string v =
     (let v' = take 32767 v
      in if list_ex illegal_character v' then Inl (Library_Error ''IllegalCharacterError'')
         else Inr v')"

text \<open>
  \<^verbatim>\<open>sheet.cell(row=r, column=c, value=v)\<close> with a string \<open>v\<close> and \<open>r\<close>, \<open>c\<close> from 1 on
  (the handler passes no other): the library first fetches the cell, creating an empty one
  when the sheet has none there (\<open>touch_cell\<close>), and then assigns the checked string as its
  value (\<open>store_value\<close>); an existing alignment stays. When the check raises, the cell
  exists but no value is set. The result is the exception, if any, and the sheet.
  \<^verbatim>\<open>sheet.cell(...).alignment = Alignment(wrap_text=True)\<close> then sets the flag.
\<close>

definition touch_cell :: "sheet \<Rightarrow> nat \<Rightarrow> nat \<Rightarrow> sheet" where
  "touch_cell sh r c = AList.update (r, c) (get_cell sh r c) sh"

definition store_value :: "sheet \<Rightarrow> nat \<Rightarrow> nat \<Rightarrow> string \<Rightarrow> sheet" where
  "store_value sh r c v = AList.update (r, c) ((get_cell sh r c)\<lparr>cvalue := Text v\<rparr>) sh"

definition set_value :: "sheet \<Rightarrow> nat \<Rightarrow> nat \<Rightarrow> string \<Rightarrow> failure option \<times> sheet" where
  "set_value sh r c v =
     (let sh0 = touch_cell sh r c
      in case check_string v of
           Inl e \<Rightarrow> (Some e, sh0)
         | Inr v' \<Rightarrow> (None, store_value sh0 r c v'))"

definition set_wrap :: "sheet \<Rightarrow> nat \<Rightarrow> nat \<Rightarrow> sheet" where
  "set_wrap sh r c = AList.update (r, c) ((get_cell sh r c)\<lparr>wrap_text := True\<rparr>) sh"

subsection \<open>The Fill Template handler\<close>

text \<open>
  \<^verbatim>\<open>
  col_indices = {col[0].value: col[0].column for col in sheet.iter_cols(1, sheet.max_column)}
  desc_col = col_indices.get("Description")
  desc2_col = col_indices.get("Description 2")
  \<close>
  \<open>iter_cols\<close> visits the columns 1 to \<open>max_column\<close> in order and \<open>col[0]\<close> is the cell
  of row 1. In a dictionary comprehension a later column replaces an earlier one with the
  same header, which is \<open>map_of\<close> on the reversed list of pairs.
\<close>

definition header_cells :: "sheet \<Rightarrow> (cell_value \<times> nat) list" where
  "header_cells sh = map (\<lambda>c. (cvalue (get_cell sh 1 c), c)) [1..<Suc (max_column sh)]"

definition headers :: "sheet \<Rightarrow> cell_value list" where
  "headers sh = map fst (header_cells sh)"

definition col_indices :: "sheet \<Rightarrow> cell_value \<rightharpoonup> nat" where
  "col_indices sh = map_of (rev (header_cells sh))"

text \<open>Python's truth value of \<^verbatim>\<open>dict.get\<close>'s result: \<^verbatim>\<open>None\<close> and 0 are false.\<close>

definition truthy_col :: "nat option \<Rightarrow> bool" where
  "truthy_col d = (case d of None \<Rightarrow> False | Some c \<Rightarrow> c \<noteq> 0)"

text \<open>
  \<^verbatim>\<open>
  for row_text in st.session_state["edited_data"]:
      sheet.cell(row=row_idx, column=desc_col, value=row_text).alignment = Alignment(wrap_text=True)
      if desc2_col:
          sheet.cell(row=row_idx, column=desc2_col, value="")
      row_idx += 1
  \<close>
\<close>

fun fill_rows ::
  "nat \<Rightarrow> nat option \<Rightarrow> nat \<Rightarrow> string list \<Rightarrow> sheet \<Rightarrow> failure option \<times> sheet" where
  "fill_rows desc_col desc2_col row_idx [] sh = (None, sh)"
| "fill_rows desc_col desc2_col row_idx (row_text # rest) sh =
     (case set_value sh row_idx desc_col row_text of
        (Some e, sh0) \<Rightarrow> (Some e, sh0)
      | (None, sh0) \<Rightarrow>
          (let sh1 = set_wrap sh0 row_idx desc_col
           in case (if truthy_col desc2_col then set_value sh1 row_idx (the desc2_col) []
                    else (None, sh1)) of
                (Some e, sh2) \<Rightarrow> (Some e, sh2)
              | (None, sh2) \<Rightarrow> fill_rows desc_col desc2_col (row_idx + 1) rest sh2))"

text \<open>
  \<open>accepted v\<close> says that \<^verbatim>\<open>check_string\<close> returns for the line \<open>v\<close>. \<open>write_row\<close> is
  what the body of the fill loop does to the sheet for an accepted line whose checked value
  is \<open>v\<close>: the value and the wrap flag in the Description column, and the empty string in
  the Description 2 column when there is one.
\<close>

definition accepted :: "string \<Rightarrow> bool" where
  "accepted v = (case check_string v of Inl e \<Rightarrow> False | Inr v' \<Rightarrow> True)"

definition write_row :: "nat \<Rightarrow> nat option \<Rightarrow> nat \<Rightarrow> string \<Rightarrow> sheet \<Rightarrow> sheet" where
  "write_row desc_col desc2_col row_idx v sh =
     (let sh1 = set_wrap (store_value (touch_cell sh row_idx desc_col) row_idx desc_col v)
                  row_idx desc_col
      in if truthy_col desc2_col
         then store_value (touch_cell sh1 row_idx (the desc2_col)) row_idx (the desc2_col) []
         else sh1)"

text \<open>
  The loop returns the exception that ended it, if any, and the sheet as it is written so
  far. A line that the workbook library rejects ends the loop at its row: the rows before
  it are written, this row and the rows behind it get no value.

  What a run of the handler leaves behind: the sheet in memory, the file
  \<^verbatim>\<open>updated_template.xlsx\<close> on disk (\<open>None\<close> when there is no such file), the
  elements shown on the page and the exception that ended the handler, if any. The message
  texts are the source's without their emoji. When the loop raises, the handler ends
  there: nothing is saved and nothing is shown.
\<close>

datatype ui_element = Success string | Error string | Download_Button string

record fill_result =
  sheet_after :: sheet
  disk_after :: "sheet option"
  shown :: "ui_element list"
  fill_raised :: "failure option"

definition fill_template :: "sheet \<Rightarrow> string list \<Rightarrow> sheet option \<Rightarrow> fill_result" where
  "fill_template sh edited_data disk =
     (let desc_col = col_indices sh (Text ''Description'');
          desc2_col = col_indices sh (Text ''Description 2'')
      in if truthy_col desc_col
         then (case fill_rows (the desc_col) desc2_col 2 edited_data sh of
                 (Some e, sh') \<Rightarrow>
                   \<lparr>sheet_after = sh', disk_after = disk, shown = [], fill_raised = Some e\<rparr>
               | (None, sh') \<Rightarrow>
                   \<lparr>sheet_after = sh', disk_after = Some sh',
                    shown = [Success ''Data filled successfully!'',
                             Download_Button ''updated_template.xlsx''],
                    fill_raised = None\<rparr>)
         else \<lparr>sheet_after = sh, disk_after = disk,
               shown = [Error '''Description' column not found in Excel template.''],
               fill_raised = None\<rparr>)"

subsection \<open>Text extraction\<close>

text \<open>
  An uploaded file: its name and what the two parsers make of its bytes.
  \<open>pdf_pages\<close> is \<^verbatim>\<open>page.extract_text()\<close> of every page of
  \<^verbatim>\<open>pdfplumber.open(file)\<close> (\<open>None\<close> or an empty string for a page without text),
  \<open>docx_paragraphs\<close> is \<^verbatim>\<open>p.text\<close> of every paragraph of \<^verbatim>\<open>docx.Document(file)\<close>.
\<close>

record uploaded =
  name :: string
  pdf_pages :: "failure + string option list"
  docx_paragraphs :: "failure + string list"

text \<open>
  \<^verbatim>\<open>
  text = ""
  for page in pdf.pages:
      page_text = page.extract_text()
      if page_text:
          text += page_text + "\n"
  return text.strip()
  \<close>
\<close>

fun pdf_pages_loop :: "string option list \<Rightarrow> string \<Rightarrow> string" where
  "pdf_pages_loop [] text = text"
| "pdf_pages_loop (page_text # pages) text =
     pdf_pages_loop pages
       (case page_text of None \<Rightarrow> text
        | Some t \<Rightarrow> if t \<noteq> [] then text @ t @ [newline] else text)"

definition extract_text_from_pdf :: "uploaded \<Rightarrow> failure + string" where
  "extract_text_from_pdf file =
     (case pdf_pages file of Inl e \<Rightarrow> Inl e
      | Inr pages \<Rightarrow> Inr (strip (pdf_pages_loop pages [])))"

text \<open>\<^verbatim>\<open>"\n".join([p.text.strip() for p in doc.paragraphs if p.text.strip()])\<close>\<close>

definition extract_text_from_docx :: "uploaded \<Rightarrow> failure + string" where
  "extract_text_from_docx file =
     (case docx_paragraphs file of Inl e \<Rightarrow> Inl e
      | Inr paragraphs \<Rightarrow>
          Inr (join [newline] (map strip (filter (\<lambda>p. strip p \<noteq> []) paragraphs))))"

subsection \<open>process\_document\<close>

text \<open>
  The prompt is an f-string with the chunk in the middle of a fixed text.
\<close>

definition prompt_head :: string where
  "prompt_head = concat
     [[newline],
      ''        Analyze the document properly, extract main & subitems properly and their descriptions from the following text:'',
      [newline],
      ''        '']"

definition prompt_tail :: string where
  "prompt_tail = concat
     [[newline],
      ''        '', [newline],
      ''        **Formatting Rules:**'', [newline],
      ''        - Extract all item names and descriptions in a structured manner. DO NOT add any extra comments!'', [newline],
      ''        - Do not extract Price!'', [newline],
      ''        - Maintain logical sentence breaks.'', [newline],
      ''        - Format the extracted data properly for user readability.'', [newline],
      ''        - Each line should have max **45 characters**.'', [newline],
      ''        - Do **not** split words in half when breaking lines.'', [newline],
      ''        - If exceeding 45 characters, split into a new row.'', [newline],
      [newline],
      ''        Do not add any extra symbols before the answer.'', [newline],
      ''        Do not add unnecessary gaps in between output.'', [newline],
      ''        Do not add any extra words/comment in the answer. Strictly follow formatting rules.'', [newline],
      ''        '']"

definition prompt :: "string \<Rightarrow> string" where
  "prompt chunk = prompt_head @ chunk @ prompt_tail"

text \<open>
  The two libraries that \<open>process_document\<close> calls after the text is extracted:
  \<open>split_text\<close> is \<^verbatim>\<open>splitter.split_text\<close> of
  \<^verbatim>\<open>RecursiveCharacterTextSplitter(chunk_size=5000, chunk_overlap=0)\<close>, and
  \<open>llm_invoke k p\<close> is what the \<open>k\<close>-th call \<^verbatim>\<open>llm.invoke([HumanMessage(content=p)])\<close>
  of a run does: it raises, or it returns a response with this \<^verbatim>\<open>content\<close>. The
  script is verified for every behaviour of the two; the splitter's own algorithm is
  modelled in a later section.
\<close>

record env =
  split_text :: "string \<Rightarrow> failure + string list"
  llm_invoke :: "nat \<Rightarrow> string \<Rightarrow> failure + string"

text \<open>
  \<^verbatim>\<open>
  for chunk in text_chunks:
      prompt = f"""..."""
      response = llm.invoke([HumanMessage(content=prompt)])
      extracted_data.append(response.content.strip())
  return extracted_data
  \<close>
  The loop returns its result together with the prompts it has sent to the model, in order;
  \<open>k\<close> counts the calls made so far.
\<close>

fun extract_chunks ::
  "(nat \<Rightarrow> string \<Rightarrow> failure + string) \<Rightarrow> nat \<Rightarrow> string list \<Rightarrow> string list
     \<Rightarrow> (failure + string list) \<times> string list" where
  "extract_chunks llm k [] extracted_data = (Inr extracted_data, [])"
| "extract_chunks llm k (chunk # text_chunks) extracted_data =
     (case llm k (prompt chunk) of
        Inl e \<Rightarrow> (Inl e, [prompt chunk])
      | Inr content \<Rightarrow>
          (case extract_chunks llm (Suc k) text_chunks (extracted_data @ [strip content]) of
             (r, sent) \<Rightarrow> (r, prompt chunk # sent)))"

text \<open>
  \<^verbatim>\<open>file_extension = file.name.split(".")[-1]\<close>; a split is never empty, so the last
  element exists.
\<close>

definition file_extension :: "uploaded \<Rightarrow> string" where
  "file_extension file = last (split_on (CHR ''.'') [] (name file))"

text \<open>
  \<^verbatim>\<open>
  text = extract_text_from_pdf(file) if file_extension == "pdf"
         else extract_text_from_docx(file) if file_extension == "docx" else ""
  \<close>
\<close>

definition document_text :: "uploaded \<Rightarrow> failure + string" where
  "document_text file =
     (if file_extension file = ''pdf'' then extract_text_from_pdf file
      else if file_extension file = ''docx'' then extract_text_from_docx file
      else Inr [])"

text \<open>
  \<open>process_document\<close> returns \<^verbatim>\<open>None\<close> (here \<open>Inr None\<close>) for an empty text and the
  list of the model's answers otherwise; the second component is the list of prompts sent.
\<close>

definition process_document ::
  "env \<Rightarrow> uploaded \<Rightarrow> (failure + string list option) \<times> string list" where
  "process_document env file =
     (case document_text file of
        Inl e \<Rightarrow> (Inl e, [])
      | Inr text \<Rightarrow>
          if text = [] then (Inr None, [])
          else (case split_text env text of
                  Inl e \<Rightarrow> (Inl e, [])
                | Inr text_chunks \<Rightarrow>
                    (case extract_chunks (llm_invoke env) 0 text_chunks [] of
                       (Inl e, sent) \<Rightarrow> (Inl e, sent)
                     | (Inr extracted_data, sent) \<Rightarrow> (Inr (Some extracted_data), sent))))"

subsection \<open>The session\<close>

text \<open>
  \<^verbatim>\<open>st.session_state\<close> with its three keys; \<open>None\<close> is a key that is not set. The value
  under \<^verbatim>\<open>"extracted_data"\<close> is \<^verbatim>\<open>None\<close> or a list, as \<open>process_document\<close> returns it.
\<close>

record session_state =
  extracted_data :: "string list option option"
  file_name :: "string option"
  edited_data :: "string list option"

definition empty_session :: session_state where
  "empty_session = \<lparr>extracted_data = None, file_name = None, edited_data = None\<rparr>"

text \<open>
  \<^verbatim>\<open>"extracted_data" not in st.session_state or st.session_state["file_name"] != uploaded_file.name\<close>:
  the second operand is evaluated only when the key \<^verbatim>\<open>"extracted_data"\<close> is set, and
  reading a key that is not set raises.
\<close>

definition file_changed :: "session_state \<Rightarrow> string \<Rightarrow> failure + bool" where
  "file_changed ss nm =
     (case extracted_data ss of
        None \<Rightarrow> Inr True
      | Some _ \<Rightarrow> (case file_name ss of
                    None \<Rightarrow> Inl (Key_Error ''file_name'')
                  | Some stored \<Rightarrow> Inr (stored \<noteq> nm)))"

text \<open>
  \<^verbatim>\<open>
  if uploaded_file:
      if "extracted_data" not in st.session_state or st.session_state["file_name"] != uploaded_file.name:
          st.session_state["extracted_data"] = process_document(uploaded_file)
          st.session_state["file_name"] = uploaded_file.name
  \<close>
  The step returns the exception that ended the run or the session state it leaves, and the
  prompts sent to the model.
\<close>

definition upload_step ::
  "env \<Rightarrow> session_state \<Rightarrow> uploaded option \<Rightarrow> (failure + session_state) \<times> string list" where
  "upload_step env ss uploaded_file =
     (case uploaded_file of
        None \<Rightarrow> (Inr ss, [])
      | Some file \<Rightarrow>
          (case file_changed ss (name file) of
             Inl e \<Rightarrow> (Inl e, [])
           | Inr changed \<Rightarrow>
               if changed
               then (case process_document env file of
                       (Inl e, sent) \<Rightarrow> (Inl e, sent)
                     | (Inr result, sent) \<Rightarrow>
                         (Inr (ss\<lparr>extracted_data := Some result,
                                  file_name := Some (name file)\<rparr>), sent))
               else (Inr ss, [])))"

text \<open>
  \<^verbatim>\<open>"extracted_data" in st.session_state and st.session_state["extracted_data"]\<close>: the
  key is set and its value is a non-empty list.
\<close>

definition has_extracted_data :: "session_state \<Rightarrow> bool" where
  "has_extracted_data ss =
     (case extracted_data ss of Some (Some blocks) \<Rightarrow> blocks \<noteq> [] | _ \<Rightarrow> False)"

text \<open>
  \<^verbatim>\<open>
  formatted_text = "\n".join(st.session_state["extracted_data"])
  edited_text = st.text_area("Review and Edit the Extracted Data:", formatted_text, height=300)
  st.session_state["edited_data"] = edited_text.split("\n")
  \<close>
  \<open>text_area\<close> is the user's content of the text area: \<open>None\<close> when the user has not
  edited it, and the widget then returns the text it was given.
\<close>

definition formatted_text :: "session_state \<Rightarrow> string" where
  "formatted_text ss =
     (case extracted_data ss of Some (Some blocks) \<Rightarrow> join [newline] blocks | _ \<Rightarrow> [])"

definition review_step :: "session_state \<Rightarrow> string option \<Rightarrow> session_state" where
  "review_step ss text_area =
     (if has_extracted_data ss
      then (let edited_text = (case text_area of None \<Rightarrow> formatted_text ss | Some t \<Rightarrow> t)
            in ss\<lparr>edited_data := Some (split_lines edited_text)\<rparr>)
      else ss)"

text \<open>
  One run of the script. The inputs are the widgets' values: the uploaded document, the
  uploaded template (as \<^verbatim>\<open>load_workbook\<close> reads it), the text area and whether the
  Fill Template button was pressed. The Fill Template handler is inside the review section,
  so it runs only when there is extracted data. The uploader's own filter on the file name
  is not modelled: the script is verified for every file.
\<close>

record ui_input =
  inp_file :: "uploaded option"
  inp_template :: "sheet option"
  inp_text :: "string option"
  inp_fill :: bool

record run_result =
  run_session :: session_state
  run_raised :: "failure option"
  run_sent :: "string list"
  run_disk :: "sheet option"
  run_page :: "ui_element list"

definition script_run :: "env \<Rightarrow> ui_input \<Rightarrow> session_state \<Rightarrow> sheet option \<Rightarrow> run_result" where
  "script_run env inp ss d =
     (case upload_step env ss (inp_file inp) of
        (Inl e, sent) \<Rightarrow>
          \<lparr>run_session = ss, run_raised = Some e, run_sent = sent, run_disk = d, run_page = []\<rparr>
      | (Inr ss1, sent) \<Rightarrow>
          (let ss2 = review_step ss1 (inp_text inp)
           in if has_extracted_data ss1 \<and> inp_template inp \<noteq> None \<and> inp_fill inp
              then (let f = fill_template (the (inp_template inp)) (the (edited_data ss2)) d
                    in \<lparr>run_session = ss2, run_raised = fill_raised f, run_sent = sent,
                        run_disk = disk_after f, run_page = shown f\<rparr>)
              else \<lparr>run_session = ss2, run_raised = None, run_sent = sent, run_disk = d, run_page = []\<rparr>))"

text \<open>A session is a sequence of runs, each with its own inputs and library behaviour.\<close>

fun session_runs ::
  "(env \<times> ui_input) list \<Rightarrow> session_state \<Rightarrow> sheet option \<Rightarrow> session_state \<times> sheet option" where
  "session_runs [] ss d = (ss, d)"
| "session_runs ((env, inp) # rest) ss d =
     session_runs rest (run_session (script_run env inp ss d)) (run_disk (script_run env inp ss d))"

text \<open>The session state after a sequence of runs of a fresh session.\<close>

definition reachable_session :: "(env \<times> ui_input) list \<Rightarrow> session_state" where
  "reachable_session history = fst (session_runs history empty_session None)"

text \<open>
  The two keys \<^verbatim>\<open>"extracted_data"\<close> and \<^verbatim>\<open>"file_name"\<close> are set together; this is
  what keeps the read of \<^verbatim>\<open>"file_name"\<close> in the guard from raising.
\<close>

definition keys_consistent :: "session_state \<Rightarrow> bool" where
  "keys_consistent ss = (extracted_data ss \<noteq> None \<longrightarrow> file_name ss \<noteq> None)"

subsection \<open>The chunk splitter\<close>

text \<open>
  Modelled from the spec: the chunk splitter. The script calls
  \<^verbatim>\<open>RecursiveCharacterTextSplitter(chunk_size=5000, chunk_overlap=0).split_text\<close>, a class
  of the text-splitting library, whose code is not among the sources of the repository.
  The spec describes it as a recursive, greedy, boundary-aware splitter that prefers
  paragraph, line and word boundaries to hard character cuts, with a cap on the chunk size
  and no overlap. The definitions of this section follow that description the way the
  library class carries it out with its default settings: the separators are tried in the
  order \<^verbatim>\<open>"\n\n", "\n", " ", ""\<close>; the text is cut in front of every occurrence of the
  first separator that it contains, so that a separator stays at the head of the piece
  behind it; pieces shorter than the cap are merged greedily into chunks, and a piece that
  is not shorter is split again with the separators that remain; every chunk is stripped
  and an empty one is dropped. Lengths and the cap are Python integers.
\<close>

text \<open>
  Modelled from the spec: \<^verbatim>\<open>re.search(re.escape(s), text)\<close>, whether the separator
  occurs in the text.
\<close>

fun occurs :: "string \<Rightarrow> string \<Rightarrow> bool" where
  "occurs s [] = (s = [])"
| "occurs s (x # xs) = (prefix s (x # xs) \<or> occurs s xs)"

text \<open>
  Modelled from the spec: the choice of the separator. The first separator of the list
  \<open>s # rest\<close> that is empty or occurs in the text is taken, and the separators behind it
  remain for the pieces that are too long; the empty separator leaves none. When no
  separator occurs, the last one is taken.
\<close>

fun choose_separator :: "string \<Rightarrow> string \<Rightarrow> string list \<Rightarrow> string \<times> string list" where
  "choose_separator text s rest =
     (if s = [] then ([], [])
      else if occurs s text then (s, rest)
      else (case rest of [] \<Rightarrow> (s, []) | s' # rest' \<Rightarrow> choose_separator text s' rest'))"

text \<open>
  Modelled from the spec: the cut. With the empty separator the pieces are the single
  characters; otherwise the text is split at the separator and the separator is put back
  in front of every piece but the first. Empty pieces are dropped.
\<close>

definition split_text_with_regex :: "string \<Rightarrow> string \<Rightarrow> string list" where
  "split_text_with_regex text separator =
     filter (\<lambda>s. s \<noteq> [])
       (case separator of
          [] \<Rightarrow> map (\<lambda>c. [c]) text
        | c # cs \<Rightarrow> (case split_on c cs text of
                      [] \<Rightarrow> []
                    | p # ps \<Rightarrow> p # map (\<lambda>q. separator @ q) ps))"

text \<open>
  Modelled from the spec: a chunk is the concatenation of its pieces, stripped; an empty
  chunk is dropped.
\<close>

definition join_docs :: "string list \<Rightarrow> string list" where
  "join_docs docs = (let text = strip (concat docs) in if text = [] then [] else [text])"

text \<open>
  Modelled from the spec: greedy merging. \<open>current_doc\<close> collects pieces and
  \<open>total_len\<close> is their length. When the next piece does not fit under the cap, the
  collected pieces become a chunk and pieces are removed from the front of
  \<open>current_doc\<close> while more than \<open>chunk_overlap\<close> characters are left (or the next
  piece still does not fit). Removing from an empty \<open>current_doc\<close> is an
  \<^verbatim>\<open>IndexError\<close> in Python and \<open>None\<close> here.
\<close>

fun pop_front :: "int \<Rightarrow> int \<Rightarrow> int \<Rightarrow> int \<Rightarrow> string list \<Rightarrow> (int \<times> string list) option" where
  "pop_front chunk_size chunk_overlap len total_len [] =
     (if total_len > chunk_overlap \<or> (total_len + len > chunk_size \<and> total_len > 0)
      then None else Some (total_len, []))"
| "pop_front chunk_size chunk_overlap len total_len (d # current_doc) =
     (if total_len > chunk_overlap \<or> (total_len + len > chunk_size \<and> total_len > 0)
      then pop_front chunk_size chunk_overlap len (total_len - int (length d)) current_doc
      else Some (total_len, d # current_doc))"

fun merge_loop ::
  "int \<Rightarrow> int \<Rightarrow> string list \<Rightarrow> string list \<Rightarrow> string list \<Rightarrow> int \<Rightarrow> string list option" where
  "merge_loop chunk_size chunk_overlap [] docs current_doc total_len =
     Some (docs @ join_docs current_doc)"
| "merge_loop chunk_size chunk_overlap (d # splits) docs current_doc total_len =
     (if total_len + int (length d) > chunk_size \<and> current_doc \<noteq> []
      then (case pop_front chunk_size chunk_overlap (int (length d)) total_len current_doc of
              None \<Rightarrow> None
            | Some (total_len', current_doc') \<Rightarrow>
                merge_loop chunk_size chunk_overlap splits (docs @ join_docs current_doc)
                  (current_doc' @ [d]) (total_len' + int (length d)))
      else merge_loop chunk_size chunk_overlap splits docs
             (current_doc @ [d]) (total_len + int (length d)))"

definition merge_splits :: "int \<Rightarrow> int \<Rightarrow> string list \<Rightarrow> string list option" where
  "merge_splits chunk_size chunk_overlap splits = merge_loop chunk_size chunk_overlap splits [] [] 0"

text \<open>
  Modelled from the spec: the loop over the pieces. Pieces shorter than the cap are
  collected in \<open>good_splits\<close>; a piece that is not shorter first flushes the collected
  ones through \<open>merge_splits\<close> and is then split by \<open>deeper\<close>, the splitter for the
  remaining separators, or kept as it is when no separator remains.
\<close>

fun split_loop ::
  "int \<Rightarrow> int \<Rightarrow> (string \<Rightarrow> string list option) option \<Rightarrow> string list \<Rightarrow> string list
     \<Rightarrow> string list \<Rightarrow> string list option" where
  "split_loop chunk_size chunk_overlap deeper [] good_splits final_chunks =
     (if good_splits \<noteq> []
      then (case merge_splits chunk_size chunk_overlap good_splits of
              None \<Rightarrow> None
            | Some merged_text \<Rightarrow> Some (final_chunks @ merged_text))
      else Some final_chunks)"
| "split_loop chunk_size chunk_overlap deeper (s # splits) good_splits final_chunks =
     (if int (length s) < chunk_size
      then split_loop chunk_size chunk_overlap deeper splits (good_splits @ [s]) final_chunks
      else (case (if good_splits \<noteq> [] then merge_splits chunk_size chunk_overlap good_splits
                  else Some []) of
              None \<Rightarrow> None
            | Some merged_text \<Rightarrow>
                (case (case deeper of None \<Rightarrow> Some [s] | Some f \<Rightarrow> f s) of
                   None \<Rightarrow> None
                 | Some other_info \<Rightarrow>
                     split_loop chunk_size chunk_overlap deeper splits []
                       (final_chunks @ merged_text @ other_info))))"

text \<open>
  Modelled from the spec: the recursion over the separators. It ends because the list of
  remaining separators gets shorter.
\<close>

lemma choose_separator_shorter:
  "choose_separator t s rest = (separator, new_separators) \<Longrightarrow>
   length new_separators \<le> length rest"
proof (induction t s rest rule: choose_separator.induct)
  case (1 t s rest)
  then show ?case
    by (cases rest) (auto split: if_splits)
qed

function split_text_rec ::
  "int \<Rightarrow> int \<Rightarrow> string \<Rightarrow> string \<Rightarrow> string list \<Rightarrow> string list option" where
  "split_text_rec chunk_size chunk_overlap text s rest =
     (case choose_separator text s rest of
        (separator, new_separators) \<Rightarrow>
          split_loop chunk_size chunk_overlap
            (case new_separators of
               [] \<Rightarrow> None
             | s' # rest' \<Rightarrow> Some (\<lambda>piece. split_text_rec chunk_size chunk_overlap piece s' rest'))
            (split_text_with_regex text separator) [] [])"
  by pat_completeness auto
termination
  apply (relation "measure (\<lambda>(chunk_size, chunk_overlap, text, s, rest). length rest)")
   apply simp
  apply (simp del: choose_separator.simps)
  apply (drule sym)
  apply (drule choose_separator_shorter)
  apply simp
  done

text \<open>
  Modelled from the spec: \<^verbatim>\<open>split_text\<close> with the default separators.
\<close>

definition recursive_split_text :: "int \<Rightarrow> int \<Rightarrow> string \<Rightarrow> string list option" where
  "recursive_split_text chunk_size chunk_overlap text =
     split_text_rec chunk_size chunk_overlap text [newline, newline] [[newline], '' '', []]"

declare choose_separator.simps [simp del]
declare split_text_rec.simps [simp del]

text \<open>
  What the splitter promises for a text: the chunks are, in order, the stripped forms of
  consecutive ranges of the text, of which none is longer than the cap; the ranges cover
  the text without overlap, and a range that strips to nothing gives no chunk.
\<close>

definition chunks_of :: "int \<Rightarrow> string \<Rightarrow> string list \<Rightarrow> bool" where
  "chunks_of chunk_size t chunks \<longleftrightarrow>
     (\<exists>groups. concat groups = t \<and> (\<forall>g \<in> set groups. int (length g) \<le> chunk_size)
        \<and> chunks = filter (\<lambda>c. c \<noteq> []) (map strip groups))"

text \<open>
  A text without whitespace at either end, as \<^verbatim>\<open>strip\<close> leaves it.
\<close>

definition stripped :: "string \<Rightarrow> bool" where
  "stripped t \<longleftrightarrow> t = [] \<or> (\<not> isspace (hd t) \<and> \<not> isspace (last t))"

text \<open>
  The libraries as the script configures them: the splitter above with
  \<^verbatim>\<open>chunk_size=5000\<close> and \<^verbatim>\<open>chunk_overlap=0\<close>, and any model.
\<close>

definition script_env :: "(nat \<Rightarrow> string \<Rightarrow> failure + string) \<Rightarrow> env" where
  "script_env llm =
     \<lparr>split_text = (\<lambda>t. case recursive_split_text 5000 0 t of
                           None \<Rightarrow> Inl (Library_Error ''IndexError'')
                         | Some chunks \<Rightarrow> Inr chunks),
      llm_invoke = llm\<rparr>"

subsection \<open>Example inputs\<close>

definition two_line_block :: string where
  "two_line_block = ''a'' @ [newline] @ ''b''"

definition reviewed_session :: session_state where
  "reviewed_session =
     \<lparr>extracted_data = Some (Some [two_line_block]), file_name = Some ''offer.pdf'',
      edited_data = None\<rparr>"

definition plain_session :: session_state where
  "plain_session =
     \<lparr>extracted_data = Some (Some [''Item A'', ''Item B'']), file_name = Some ''offer.pdf'',
      edited_data = None\<rparr>"

definition text_file :: uploaded where
  "text_file = \<lparr>name = ''notes.txt'', pdf_pages = Inr [Some ''page text''],
                 docx_paragraphs = Inr [''paragraph'']\<rparr>"

definition failing_llm :: "nat \<Rightarrow> nat \<Rightarrow> string \<Rightarrow> failure + string" where
  "failing_llm i k p = (if k = i then Inl (Library_Error ''rate limit'') else Inr ''  Item A  '')"

definition two_chunk_env :: "nat \<Rightarrow> env" where
  "two_chunk_env i =
     \<lparr>split_text = (\<lambda>t. Inr [''chunk 0'', ''chunk 1'']), llm_invoke = failing_llm i\<rparr>"

definition pdf_file :: uploaded where
  "pdf_file = \<lparr>name = ''offer.pdf'', pdf_pages = Inr [Some ''page text''],
                docx_paragraphs = Inl (Library_Error ''not a docx file'')\<rparr>"

definition scanned_pdf :: uploaded where
  "scanned_pdf = \<lparr>name = ''scan.pdf'', pdf_pages = Inr [None, Some []],
                   docx_paragraphs = Inl (Library_Error ''not a docx file'')\<rparr>"

definition stored_session :: session_state where
  "stored_session =
     \<lparr>extracted_data = Some (Some [''Item A'']), file_name = Some ''offer.pdf'',
      edited_data = Some [''Item A'']\<rparr>"

definition quiet_env :: env where
  "quiet_env = \<lparr>split_text = (\<lambda>t. Inr [t]), llm_invoke = (\<lambda>k p. Inr ''Item B'')\<rparr>"

definition second_pdf :: uploaded where
  "second_pdf = \<lparr>name = ''second.pdf'', pdf_pages = Inr [Some ''other text''],
                docx_paragraphs = Inl (Library_Error ''not a docx file'')\<rparr>"

definition first_history :: "(env \<times> ui_input) list" where
  "first_history =
     [(quiet_env, \<lparr>inp_file = Some pdf_file, inp_template = None, inp_text = None, inp_fill = False\<rparr>)]"

definition form_feed_text :: string where
  "form_feed_text = ''A'' @ [CHR 0x0C] @ ''B''"

definition example_template :: sheet where
  "example_template =
     [((1, 1), \<lparr>cvalue = Text ''ID'', wrap_text = False\<rparr>),
      ((1, 2), \<lparr>cvalue = Text ''Description'', wrap_text = False\<rparr>),
      ((1, 3), \<lparr>cvalue = Text ''Description 2'', wrap_text = False\<rparr>),
      ((2, 1), \<lparr>cvalue = Number 7, wrap_text = False\<rparr>),
      ((2, 3), \<lparr>cvalue = Text ''old'', wrap_text = False\<rparr>),
      ((4, 2), \<lparr>cvalue = Text ''kept'', wrap_text = False\<rparr>)]"

definition no_description_template :: sheet where
  "no_description_template =
     [((1, 1), \<lparr>cvalue = Text ''ID'', wrap_text = False\<rparr>),
      ((1, 2), \<lparr>cvalue = Text ''description'', wrap_text = False\<rparr>),
      ((2, 2), \<lparr>cvalue = Text ''old'', wrap_text = False\<rparr>)]"

section \<open>Properties\<close>

subsection \<open>Splitting and joining\<close>

lemma split_on_nonempty: "split_on c cs t \<noteq> []"
  by (induction c cs t rule: split_on.induct) (auto split: list.splits)

lemma split_on_single_append:
  "split_on c [] (a @ c # b) = split_on c [] a @ split_on c [] b"
proof (induction a)
  case Nil
  then show ?case by simp
next
  case (Cons x a)
  then show ?case
    using split_on_nonempty[of c "[]" a]
    by (cases "split_on c [] a") (auto split: list.splits)
qed

lemma split_join:
  "xs \<noteq> [] \<Longrightarrow> split_on c [] (join [c] xs) = concat (map (split_on c []) xs)"
proof (induction xs)
  case Nil
  then show ?case by simp
next
  case (Cons x xs)
  show ?case
  proof (cases xs)
    case Nil
    then show ?thesis by simp
  next
    case (Cons y ys)
    with Cons.IH show ?thesis by (simp add: split_on_single_append)
  qed
qed

lemma split_on_no_sep: "c \<notin> set t \<Longrightarrow> split_on c [] t = [t]"
  by (induction t) auto

subsection \<open>Cell writes\<close>

lemma get_cell_store_value:
  "get_cell (store_value sh r c v) r' c' =
     (if r' = r \<and> c' = c then (get_cell sh r c)\<lparr>cvalue := Text v\<rparr> else get_cell sh r' c')"
  by (simp add: get_cell_def store_value_def update_conv')

lemma get_cell_set_wrap:
  "get_cell (set_wrap sh r c) r' c' =
     (if r' = r \<and> c' = c then (get_cell sh r c)\<lparr>wrap_text := True\<rparr> else get_cell sh r' c')"
  by (simp add: get_cell_def set_wrap_def update_conv')

lemma get_cell_touch_cell: "get_cell (touch_cell sh r c) r' c' = get_cell sh r' c'"
  by (simp add: get_cell_def touch_cell_def update_conv')

lemma accepted_iff: "accepted v \<longleftrightarrow> \<not> list_ex illegal_character (take 32767 v)"
  by (simp add: accepted_def check_string_def Let_def)

lemma check_string_accepted: "accepted v \<Longrightarrow> check_string v = Inr (take 32767 v)"
  by (simp add: check_string_def accepted_iff Let_def)

lemma check_string_rejected:
  "\<not> accepted v \<Longrightarrow> check_string v = Inl (Library_Error ''IllegalCharacterError'')"
  by (simp add: check_string_def accepted_iff Let_def)

lemma accepted_empty: "accepted []"
  by (simp add: accepted_iff)

lemma set_value_accepted:
  "accepted v \<Longrightarrow>
   set_value sh r c v = (None, store_value (touch_cell sh r c) r c (take 32767 v))"
  by (simp add: set_value_def check_string_accepted Let_def)

lemma set_value_rejected:
  "\<not> accepted v \<Longrightarrow>
   set_value sh r c v = (Some (Library_Error ''IllegalCharacterError''), touch_cell sh r c)"
  by (simp add: set_value_def check_string_rejected Let_def)

lemma set_value_empty: "set_value sh r c [] = (None, store_value (touch_cell sh r c) r c [])"
  using set_value_accepted[OF accepted_empty] by simp

lemma fill_rows_Cons_accepted:
  "accepted l \<Longrightarrow>
   fill_rows d d2 r (l # ls) sh = fill_rows d d2 (r + 1) ls (write_row d d2 r (take 32767 l) sh)"
  by (simp add: set_value_accepted set_value_empty write_row_def Let_def)

lemma fill_rows_Cons_rejected:
  "\<not> accepted l \<Longrightarrow>
   fill_rows d d2 r (l # ls) sh
     = (Some (Library_Error ''IllegalCharacterError''), touch_cell sh r d)"
  by (simp add: set_value_rejected)

lemma get_cell_write_row_other:
  "r' \<noteq> r \<or> (c' \<noteq> d \<and> (truthy_col d2 \<longrightarrow> c' \<noteq> the d2)) \<Longrightarrow>
   get_cell (write_row d d2 r v sh) r' c' = get_cell sh r' c'"
  by (auto simp: write_row_def Let_def get_cell_store_value get_cell_set_wrap get_cell_touch_cell)

lemma get_cell_write_row_desc:
  "truthy_col d2 \<longrightarrow> the d2 \<noteq> d \<Longrightarrow>
   get_cell (write_row d d2 r v sh) r d = (get_cell sh r d)\<lparr>cvalue := Text v, wrap_text := True\<rparr>"
  by (auto simp: write_row_def Let_def get_cell_store_value get_cell_set_wrap get_cell_touch_cell)

lemma get_cell_write_row_desc2:
  "truthy_col d2 \<Longrightarrow> the d2 \<noteq> d \<Longrightarrow>
   get_cell (write_row d d2 r v sh) r (the d2) = (get_cell sh r (the d2))\<lparr>cvalue := Text []\<rparr>"
  by (simp add: write_row_def Let_def get_cell_store_value get_cell_set_wrap get_cell_touch_cell)

lemma fill_rows_frame:
  "r' < r \<or> r + length ls \<le> r' \<or> (c' \<noteq> d \<and> (truthy_col d2 \<longrightarrow> c' \<noteq> the d2)) \<Longrightarrow>
   get_cell (snd (fill_rows d d2 r ls sh)) r' c' = get_cell sh r' c'"
proof (induction ls arbitrary: r sh)
  case Nil
  then show ?case by simp
next
  case (Cons l ls)
  show ?case
  proof (cases "accepted l")
    case True
    have "get_cell (snd (fill_rows d d2 (r + 1) ls (write_row d d2 r (take 32767 l) sh))) r' c'
        = get_cell (write_row d d2 r (take 32767 l) sh) r' c'"
      using Cons.prems by (intro Cons.IH) auto
    also have "\<dots> = get_cell sh r' c'"
      using Cons.prems by (intro get_cell_write_row_other) auto
    finally show ?thesis by (simp only: fill_rows_Cons_accepted[OF True])
  next
    case False
    then show ?thesis by (simp only: fill_rows_Cons_rejected[OF False] snd_conv get_cell_touch_cell)
  qed
qed

lemma fill_rows_completes: "list_all accepted ls \<Longrightarrow> fst (fill_rows d d2 r ls sh) = None"
proof (induction ls arbitrary: r sh)
  case Nil
  then show ?case by simp
next
  case (Cons l ls)
  then have a: "accepted l" and r: "list_all accepted ls" by simp_all
  show ?case by (simp only: fill_rows_Cons_accepted[OF a] Cons.IH[OF r])
qed

lemma fill_rows_raises:
  "\<not> list_all accepted ls \<Longrightarrow>
   fst (fill_rows d d2 r ls sh) = Some (Library_Error ''IllegalCharacterError'')"
proof (induction ls arbitrary: r sh)
  case Nil
  then show ?case by simp
next
  case (Cons l ls)
  show ?case
  proof (cases "accepted l")
    case True
    with Cons.prems have "\<not> list_all accepted ls" by simp
    from Cons.IH[OF this] show ?thesis by (simp only: fill_rows_Cons_accepted[OF True])
  next
    case False
    then show ?thesis by (simp only: fill_rows_Cons_rejected[OF False] fst_conv)
  qed
qed

lemma fill_rows_completes_iff: "fst (fill_rows d d2 r ls sh) = None \<longleftrightarrow> list_all accepted ls"
proof (cases "list_all accepted ls")
  case True
  then show ?thesis by (simp add: fill_rows_completes)
next
  case False
  then show ?thesis by (simp add: fill_rows_raises)
qed

lemma fill_rows_first:
  assumes "accepted l" and "truthy_col d2 \<longrightarrow> the d2 \<noteq> d"
  shows "get_cell (snd (fill_rows d d2 r (l # ls) sh)) r d
      = (get_cell sh r d)\<lparr>cvalue := Text (take 32767 l), wrap_text := True\<rparr>"
proof -
  have "get_cell (snd (fill_rows d d2 (r + 1) ls (write_row d d2 r (take 32767 l) sh))) r d
      = get_cell (write_row d d2 r (take 32767 l) sh) r d"
    by (intro fill_rows_frame) simp
  also have "\<dots> = (get_cell sh r d)\<lparr>cvalue := Text (take 32767 l), wrap_text := True\<rparr>"
    using assms(2) by (rule get_cell_write_row_desc)
  finally show ?thesis by (simp only: fill_rows_Cons_accepted[OF assms(1)])
qed

lemma fill_rows_desc:
  "i < length ls \<Longrightarrow> list_all accepted (take (Suc i) ls) \<Longrightarrow>
   (truthy_col d2 \<longrightarrow> the d2 \<noteq> d) \<Longrightarrow>
   get_cell (snd (fill_rows d d2 r ls sh)) (r + i) d =
     (get_cell sh (r + i) d)\<lparr>cvalue := Text (take 32767 (ls ! i)), wrap_text := True\<rparr>"
proof (induction ls arbitrary: r sh i)
  case Nil
  then show ?case by simp
next
  case (Cons l ls)
  then have a: "accepted l" by simp
  show ?case
  proof (cases i)
    case 0
    then show ?thesis using fill_rows_first[OF a Cons.prems(3), of r ls sh] by simp
  next
    case (Suc j)
    then have j: "j < length ls" and r: "list_all accepted (take (Suc j) ls)"
      using Cons.prems by simp_all
    have "get_cell (snd (fill_rows d d2 (r + 1) ls (write_row d d2 r (take 32767 l) sh))) (r + 1 + j) d
        = (get_cell (write_row d d2 r (take 32767 l) sh) (r + 1 + j) d)
            \<lparr>cvalue := Text (take 32767 (ls ! j)), wrap_text := True\<rparr>"
      using j r Cons.prems(3) by (rule Cons.IH)
    also have "get_cell (write_row d d2 r (take 32767 l) sh) (r + 1 + j) d = get_cell sh (r + 1 + j) d"
      by (intro get_cell_write_row_other) simp
    finally show ?thesis
      using Suc by (simp add: fill_rows_Cons_accepted[OF a] del: fill_rows.simps)
  qed
qed

lemma fill_rows_desc2:
  "i < length ls \<Longrightarrow> list_all accepted (take (Suc i) ls) \<Longrightarrow> truthy_col d2 \<Longrightarrow>
   the d2 \<noteq> d \<Longrightarrow>
   get_cell (snd (fill_rows d d2 r ls sh)) (r + i) (the d2) =
     (get_cell sh (r + i) (the d2))\<lparr>cvalue := Text []\<rparr>"
proof (induction ls arbitrary: r sh i)
  case Nil
  then show ?case by simp
next
  case (Cons l ls)
  then have a: "accepted l" by simp
  show ?case
  proof (cases i)
    case 0
    have "get_cell (snd (fill_rows d d2 (r + 1) ls (write_row d d2 r (take 32767 l) sh))) r (the d2)
        = get_cell (write_row d d2 r (take 32767 l) sh) r (the d2)"
      by (intro fill_rows_frame) simp
    also have "\<dots> = (get_cell sh r (the d2))\<lparr>cvalue := Text []\<rparr>"
      using Cons.prems(3,4) by (rule get_cell_write_row_desc2)
    finally show ?thesis using 0 by (simp add: fill_rows_Cons_accepted[OF a] del: fill_rows.simps)
  next
    case (Suc j)
    then have j: "j < length ls" and r: "list_all accepted (take (Suc j) ls)"
      using Cons.prems by simp_all
    have "get_cell (snd (fill_rows d d2 (r + 1) ls (write_row d d2 r (take 32767 l) sh))) (r + 1 + j) (the d2)
        = (get_cell (write_row d d2 r (take 32767 l) sh) (r + 1 + j) (the d2))\<lparr>cvalue := Text []\<rparr>"
      using j r Cons.prems(3,4) by (rule Cons.IH)
    also have "get_cell (write_row d d2 r (take 32767 l) sh) (r + 1 + j) (the d2)
        = get_cell sh (r + 1 + j) (the d2)"
      by (intro get_cell_write_row_other) simp
    finally show ?thesis
      using Suc by (simp add: fill_rows_Cons_accepted[OF a] del: fill_rows.simps)
  qed
qed

lemma col_indices_Some:
  "col_indices sh k = Some c \<Longrightarrow> 1 \<le> c \<and> c \<le> max_column sh \<and> cvalue (get_cell sh 1 c) = k"
  unfolding col_indices_def header_cells_def
  by (auto dest!: map_of_SomeD)

lemma col_indices_None: "col_indices sh k = None \<longleftrightarrow> k \<notin> set (headers sh)"
  by (simp add: col_indices_def headers_def map_of_eq_None_iff)

lemma col_indices_truthy: "truthy_col (col_indices sh k) \<longleftrightarrow> k \<in> set (headers sh)"
  using col_indices_Some[of sh k] col_indices_None[of sh k]
  by (cases "col_indices sh k") (auto simp: truthy_col_def)

lemma list_all_take: "list_all P xs \<Longrightarrow> list_all P (take n xs)"
  by (induction xs arbitrary: n) (auto simp: take_Cons split: nat.splits)

subsection \<open>The Fill Template handler\<close>

lemma headers_length: "length (headers sh) = max_column sh"
  by (simp add: headers_def header_cells_def)

lemma header_cells_three:
  assumes "headers sh = [a, b, c]"
  shows "header_cells sh = [(a, 1), (b, 2), (c, 3)]"
proof -
  have m: "max_column sh = 3" using headers_length[of sh] assms by simp
  have u: "[1..<Suc (max_column sh)] = [1, 2, 3]"
    unfolding m by (simp add: upt_rec)
  from assms show ?thesis
    unfolding headers_def header_cells_def u by simp
qed

lemma example_headers:
  "headers example_template = [Text ''ID'', Text ''Description'', Text ''Description 2'']"
  by (simp add: headers_def header_cells_def max_column_def example_template_def get_cell_def upt_rec)

lemma no_description_headers:
  "headers no_description_template = [Text ''ID'', Text ''description'']"
  by (simp add: headers_def header_cells_def max_column_def no_description_template_def get_cell_def upt_rec)

lemma example_columns:
  "col_indices example_template (Text ''Description'') = Some 2"
  "col_indices example_template (Text ''Description 2'') = Some 3"
  by (simp_all add: col_indices_def header_cells_three[OF example_headers])

lemma desc_cols_differ:
  assumes "col_indices sh (Text ''Description'') = Some d"
    and "col_indices sh (Text ''Description 2'') = Some d2"
  shows "d2 \<noteq> d"
  using col_indices_Some[OF assms(1)] col_indices_Some[OF assms(2)] by auto

lemma desc2_col_differs:
  assumes "col_indices sh (Text ''Description'') = Some d"
  shows "truthy_col (col_indices sh (Text ''Description 2''))
     \<longrightarrow> the (col_indices sh (Text ''Description 2'')) \<noteq> d"
  using desc_cols_differ[OF assms]
  by (cases "col_indices sh (Text ''Description 2'')") (auto simp: truthy_col_def)

lemma desc_col_obtain:
  assumes "k \<in> set (headers sh)"
  obtains d where "col_indices sh k = Some d" "d \<noteq> 0"
  using assms col_indices_None[of sh k] col_indices_Some[of sh k]
  by (cases "col_indices sh k") auto

lemma truthy_col_indices: "truthy_col (col_indices sh k) \<longleftrightarrow> col_indices sh k \<noteq> None"
  using col_indices_Some[of sh k] by (cases "col_indices sh k") (auto simp: truthy_col_def)

lemma fill_template_sheet:
  assumes "col_indices sh (Text ''Description'') = Some d"
  shows "sheet_after (fill_template sh ls disk)
      = snd (fill_rows d (col_indices sh (Text ''Description 2'')) 2 ls sh)"
  using assms truthy_col_indices[of sh "Text ''Description''"]
  by (simp add: fill_template_def Let_def split: prod.splits option.splits)

lemma fill_template_raised:
  assumes "col_indices sh (Text ''Description'') = Some d"
  shows "fill_raised (fill_template sh ls disk)
      = fst (fill_rows d (col_indices sh (Text ''Description 2'')) 2 ls sh)"
  using assms truthy_col_indices[of sh "Text ''Description''"]
  by (simp add: fill_template_def Let_def split: prod.splits option.splits)

lemma fill_template_completed:
  assumes "col_indices sh (Text ''Description'') = Some d" and "list_all accepted ls"
  shows "fill_template sh ls disk =
     \<lparr>sheet_after = snd (fill_rows d (col_indices sh (Text ''Description 2'')) 2 ls sh),
      disk_after = Some (snd (fill_rows d (col_indices sh (Text ''Description 2'')) 2 ls sh)),
      shown = [Success ''Data filled successfully!'', Download_Button ''updated_template.xlsx''],
      fill_raised = None\<rparr>"
  using assms(1) truthy_col_indices[of sh "Text ''Description''"]
    fill_rows_completes[OF assms(2), of d "col_indices sh (Text ''Description 2'')" 2 sh]
  by (cases "fill_rows d (col_indices sh (Text ''Description 2'')) 2 ls sh")
    (simp add: fill_template_def Let_def)

lemma fill_template_aborted:
  assumes "col_indices sh (Text ''Description'') = Some d" and "\<not> list_all accepted ls"
  shows "fill_template sh ls disk =
     \<lparr>sheet_after = snd (fill_rows d (col_indices sh (Text ''Description 2'')) 2 ls sh),
      disk_after = disk, shown = [],
      fill_raised = Some (Library_Error ''IllegalCharacterError'')\<rparr>"
  using assms(1) truthy_col_indices[of sh "Text ''Description''"]
    fill_rows_raises[OF assms(2), of d "col_indices sh (Text ''Description 2'')" 2 sh]
  by (cases "fill_rows d (col_indices sh (Text ''Description 2'')) 2 ls sh")
    (simp add: fill_template_def Let_def)

lemma accepted_rows: "accepted ''Row A''" "accepted ''Row B''"
  by (simp_all add: accepted_iff illegal_character_def)

lemma form_feed_rejected: "\<not> accepted form_feed_text"
  by (simp add: accepted_iff illegal_character_def form_feed_text_def)

lemma fill_rows_first_rejected:
  "\<not> accepted l \<Longrightarrow> get_cell (snd (fill_rows d d2 r (l # ls) sh)) r' c' = get_cell sh r' c'"
  by (simp add: fill_rows_Cons_rejected get_cell_touch_cell del: fill_rows.simps)

text \<open>
  Claim C1. For a template whose first row is "ID", "Description", "Description 2" and the
  edited lines "Row A", "Row B", the handler finds the two columns at 2 and 3, writes
  "Row A" and "Row B" into rows 2 and 3 of the Description column, sets the Description 2
  cells of both rows to the empty string, raises nothing and saves the filled sheet.
\<close>

theorem fill_example:
  assumes "headers sh = [Text ''ID'', Text ''Description'', Text ''Description 2'']"
  shows "col_indices sh (Text ''Description'') = Some 2
     \<and> col_indices sh (Text ''Description 2'') = Some 3
     \<and> cvalue (get_cell (sheet_after (fill_template sh [''Row A'', ''Row B''] disk)) 2 2) = Text ''Row A''
     \<and> cvalue (get_cell (sheet_after (fill_template sh [''Row A'', ''Row B''] disk)) 3 2) = Text ''Row B''
     \<and> cvalue (get_cell (sheet_after (fill_template sh [''Row A'', ''Row B''] disk)) 2 3) = Text ''''
     \<and> cvalue (get_cell (sheet_after (fill_template sh [''Row A'', ''Row B''] disk)) 3 3) = Text ''''
     \<and> fill_raised (fill_template sh [''Row A'', ''Row B''] disk) = None
     \<and> disk_after (fill_template sh [''Row A'', ''Row B''] disk)
         = Some (sheet_after (fill_template sh [''Row A'', ''Row B''] disk))"
proof -
  let ?ls = "[''Row A'', ''Row B'']"
  have hc: "header_cells sh = [(Text ''ID'', 1), (Text ''Description'', 2), (Text ''Description 2'', 3)]"
    using assms by (rule header_cells_three)
  have d: "col_indices sh (Text ''Description'') = Some 2"
    and d2: "col_indices sh (Text ''Description 2'') = Some 3"
    by (simp_all add: col_indices_def hc)
  have acc: "list_all accepted ?ls" by (simp add: accepted_rows)
  have t: "truthy_col (Some 3)" "the (Some (3::nat)) \<noteq> 2" by (simp_all add: truthy_col_def)
  note f = fill_template_completed[OF d acc, of disk, unfolded d2]
  have a0: "list_all accepted (take (Suc 0) ?ls)" and a1: "list_all accepted (take (Suc 1) ?ls)"
    by (simp_all add: accepted_rows)
  have c1: "cvalue (get_cell (snd (fill_rows 2 (Some 3) 2 ?ls sh)) 2 2) = Text ''Row A''"
    using fill_rows_desc[of 0 ?ls "Some 3" 2 2 sh] a0 t by simp
  have c2: "cvalue (get_cell (snd (fill_rows 2 (Some 3) 2 ?ls sh)) 3 2) = Text ''Row B''"
    using fill_rows_desc[of 1 ?ls "Some 3" 2 2 sh] a1 t by simp
  have c3: "cvalue (get_cell (snd (fill_rows 2 (Some 3) 2 ?ls sh)) 2 3) = Text ''''"
    using fill_rows_desc2[of 0 ?ls "Some 3" 2 2 sh] a0 t by simp
  have c4: "cvalue (get_cell (snd (fill_rows 2 (Some 3) 2 ?ls sh)) 3 3) = Text ''''"
    using fill_rows_desc2[of 1 ?ls "Some 3" 2 2 sh] a1 t by simp
  show ?thesis
    unfolding f using d d2 c1 c2 c3 c4 by simp
qed

theorem fill_example_witness:
  "headers example_template = [Text ''ID'', Text ''Description'', Text ''Description 2'']
   \<and> cvalue (get_cell (sheet_after (fill_template example_template [''Row A'', ''Row B''] None)) 2 2) = Text ''Row A''
   \<and> cvalue (get_cell (sheet_after (fill_template example_template [''Row A'', ''Row B''] None)) 3 2) = Text ''Row B''
   \<and> cvalue (get_cell (sheet_after (fill_template example_template [''Row A'', ''Row B''] None)) 2 3) = Text ''''
   \<and> cvalue (get_cell (sheet_after (fill_template example_template [''Row A'', ''Row B''] None)) 3 3) = Text ''''
   \<and> fill_raised (fill_template example_template [''Row A'', ''Row B''] None) = None"
  using fill_example[OF example_headers, of None] example_headers by simp

text \<open>
  Claim C2. When no header cell of the template is the string "Description", the handler
  shows the error message, raises nothing, leaves every cell of the sheet as it was and
  leaves the output file on disk as it was (it writes none).
\<close>

theorem fill_without_description:
  assumes "Text ''Description'' \<notin> set (headers sh)"
  shows "fill_template sh ls disk =
     \<lparr>sheet_after = sh, disk_after = disk,
      shown = [Error '''Description' column not found in Excel template.''],
      fill_raised = None\<rparr>"
  using assms col_indices_truthy[of sh "Text ''Description''"]
  by (simp add: fill_template_def Let_def)

theorem fill_without_description_witness:
  "Text ''Description'' \<notin> set (headers no_description_template)
   \<and> sheet_after (fill_template no_description_template [''Row A'', ''Row B''] None) = no_description_template
   \<and> disk_after (fill_template no_description_template [''Row A'', ''Row B''] None) = None
   \<and> shown (fill_template no_description_template [''Row A'', ''Row B''] None)
       = [Error '''Description' column not found in Excel template.'']"
proof -
  have h: "Text ''Description'' \<notin> set (headers no_description_template)"
    by (simp add: no_description_headers)
  show ?thesis
    using h fill_without_description[OF h, of "[''Row A'', ''Row B'']" None] by simp
qed

text \<open>
  Claim C8. After a fill of a template that has a Description column: in every filled row
  (a row whose line and the lines before it the workbook library accepted; every row of the
  lines when the fill completed) the Description 2 cell, when that column exists, holds the
  empty string; every cell outside the two columns, and every cell of a row that was not
  filled (row 1 and the rows behind the last line), is the template's cell.
\<close>

theorem fill_frame:
  assumes "Text ''Description'' \<in> set (headers sh)"
    and "out = sheet_after (fill_template sh ls disk)"
  shows "(\<forall>c2 i. col_indices sh (Text ''Description 2'') = Some c2 \<and> i < length ls
            \<and> list_all accepted (take (Suc i) ls)
            \<longrightarrow> cvalue (get_cell out (2 + i) c2) = Text '''')
     \<and> (fill_raised (fill_template sh ls disk) = None \<longrightarrow>
          (\<forall>c2 i. col_indices sh (Text ''Description 2'') = Some c2 \<and> i < length ls
            \<longrightarrow> cvalue (get_cell out (2 + i) c2) = Text ''''))
     \<and> (\<forall>row col. col_indices sh (Text ''Description'') \<noteq> Some col
            \<and> col_indices sh (Text ''Description 2'') \<noteq> Some col
            \<longrightarrow> get_cell out row col = get_cell sh row col)
     \<and> (\<forall>row col. row < 2 \<or> 2 + length ls \<le> row
            \<longrightarrow> get_cell out row col = get_cell sh row col)"
proof -
  from assms(1) obtain d where d: "col_indices sh (Text ''Description'') = Some d"
    by (rule desc_col_obtain)
  let ?d2 = "col_indices sh (Text ''Description 2'')"
  have out: "out = snd (fill_rows d ?d2 2 ls sh)"
    using assms(2) by (simp add: fill_template_sheet[OF d])
  have ne: "truthy_col ?d2 \<longrightarrow> the ?d2 \<noteq> d"
    using d by (rule desc2_col_differs)
  have a: "cvalue (get_cell out (2 + i) c2) = Text ''''"
    if "?d2 = Some c2" "i < length ls" "list_all accepted (take (Suc i) ls)" for c2 i
  proof -
    have t: "truthy_col ?d2"
      using that(1) truthy_col_indices[of sh "Text ''Description 2''"] by simp
    have n: "the ?d2 \<noteq> d" using ne t by simp
    show ?thesis
      using fill_rows_desc2[OF that(2,3) t n, of 2 sh] that(1) by (simp add: out)
  qed
  have a': "cvalue (get_cell out (2 + i) c2) = Text ''''"
    if "fill_raised (fill_template sh ls disk) = None" "?d2 = Some c2" "i < length ls" for c2 i
  proof -
    have "list_all accepted ls"
      using that(1) by (simp add: fill_template_raised[OF d] fill_rows_completes_iff)
    then have "list_all accepted (take (Suc i) ls)" by (rule list_all_take)
    with that(2,3) show ?thesis by (intro a)
  qed
  have b: "get_cell out row col = get_cell sh row col"
    if "col_indices sh (Text ''Description'') \<noteq> Some col" "?d2 \<noteq> Some col" for row col
  proof -
    have "col \<noteq> d" using that(1) d by simp
    moreover have "truthy_col ?d2 \<longrightarrow> col \<noteq> the ?d2"
      using that(2) by (cases ?d2) (auto simp: truthy_col_def)
    ultimately show ?thesis unfolding out by (intro fill_rows_frame) simp
  qed
  have c: "get_cell out row col = get_cell sh row col"
    if "row < 2 \<or> 2 + length ls \<le> row" for row col
    unfolding out using that by (intro fill_rows_frame) auto
  from a a' b c show ?thesis by blast
qed

theorem fill_frame_witness:
  "Text ''Description'' \<in> set (headers example_template)
   \<and> col_indices example_template (Text ''Description 2'') = Some 3
   \<and> list_all accepted [''Row A'', ''Row B'']
   \<and> fill_raised (fill_template example_template [''Row A'', ''Row B''] None) = None
   \<and> cvalue (get_cell example_template 2 3) = Text ''old''
   \<and> cvalue (get_cell (sheet_after (fill_template example_template [''Row A'', ''Row B''] None)) 2 3) = Text ''''
   \<and> cvalue (get_cell (sheet_after (fill_template example_template [''Row A'', ''Row B''] None)) 3 3) = Text ''''
   \<and> get_cell (sheet_after (fill_template example_template [''Row A'', ''Row B''] None)) 2 1
       = \<lparr>cvalue = Number 7, wrap_text = False\<rparr>
   \<and> get_cell (sheet_after (fill_template example_template [''Row A'', ''Row B''] None)) 4 2
       = \<lparr>cvalue = Text ''kept'', wrap_text = False\<rparr>"
proof -
  let ?ls = "[''Row A'', ''Row B'']"
  have h: "Text ''Description'' \<in> set (headers example_template)"
    by (simp add: example_headers)
  note d = example_columns(1) and d2 = example_columns(2)
  have acc: "list_all accepted ?ls" by (simp add: accepted_rows)
  have r: "fill_raised (fill_template example_template ?ls None) = None"
    by (simp add: fill_template_completed[OF d acc])
  have g: "get_cell example_template 2 1 = \<lparr>cvalue = Number 7, wrap_text = False\<rparr>"
    "get_cell example_template 4 2 = \<lparr>cvalue = Text ''kept'', wrap_text = False\<rparr>"
    "cvalue (get_cell example_template 2 3) = Text ''old''"
    by (simp_all add: example_template_def get_cell_def)
  note f = fill_frame[OF h refl, of ?ls None]
  have f1: "cvalue (get_cell (sheet_after (fill_template example_template ?ls None)) 2 3) = Text ''''"
    using f[THEN conjunct1, rule_format, of 3 0] d2 acc by simp
  have f2: "cvalue (get_cell (sheet_after (fill_template example_template ?ls None)) 3 3) = Text ''''"
    using f[THEN conjunct2, THEN conjunct1, rule_format, OF r, of 3 1] d2 by simp
  have f3: "get_cell (sheet_after (fill_template example_template ?ls None)) 2 1 = get_cell example_template 2 1"
    using f[THEN conjunct2, THEN conjunct2, THEN conjunct1, rule_format, of 1 2] d d2 by simp
  have f4: "get_cell (sheet_after (fill_template example_template ?ls None)) 4 2 = get_cell example_template 4 2"
    using f[THEN conjunct2, THEN conjunct2, THEN conjunct2, rule_format, of 4 2] by simp
  show ?thesis using h d2 acc r g f1 f2 f3 f4 by simp
qed

text \<open>
  Claim C10, as first stated: every fill of a template with a Description column writes
  row 2. It fails for the review text "A", form feed, "B": the text is one line, the
  workbook library rejects it, the handler ends with the library's exception, row 2 keeps
  the template's cell, nothing is saved and nothing is shown.
\<close>

theorem fill_writes_row_2_counterexample:
  "col_indices example_template (Text ''Description'') = Some 2
   \<and> split_lines form_feed_text = [form_feed_text]
   \<and> fill_raised (fill_template example_template (split_lines form_feed_text) None)
       = Some (Library_Error ''IllegalCharacterError'')
   \<and> get_cell (sheet_after (fill_template example_template (split_lines form_feed_text) None)) 2 2
       = get_cell example_template 2 2
   \<and> cvalue (get_cell example_template 2 2) = Blank
   \<and> disk_after (fill_template example_template (split_lines form_feed_text) None) = None
   \<and> shown (fill_template example_template (split_lines form_feed_text) None) = []"
proof -
  have s: "split_lines form_feed_text = [form_feed_text]"
    by (simp add: split_lines_def form_feed_text_def newline_def)
  have n: "\<not> list_all accepted [form_feed_text]"
    by (simp add: form_feed_rejected)
  have g: "cvalue (get_cell example_template 2 2) = Blank"
    by (simp add: example_template_def get_cell_def empty_cell_def)
  show ?thesis
    unfolding s fill_template_aborted[OF example_columns(1) n]
    using example_columns(1) g fill_rows_first_rejected[OF form_feed_rejected]
    by simp
qed

text \<open>
  Claim C10, amended. Splitting a text at newlines never gives an empty list, and the empty
  text gives one empty line, so a fill of a template with a Description column always
  attempts row 2. When the workbook library accepts the first line, row 2 of the
  Description column holds that line, cut at 32767 characters, word-wrapped. When it accepts
  every line the handler raises nothing and saves the sheet; otherwise the handler ends
  with the library's exception, saves nothing and shows nothing. When it rejects the first
  line no cell changes. A cleared review text gives row 2 the empty string and a saved
  sheet.
\<close>

theorem fill_writes_row_2:
  "split_lines t \<noteq> []
   \<and> split_lines [] = [[]]
   \<and> (\<forall>d. col_indices sh (Text ''Description'') = Some d \<longrightarrow>
        (accepted (hd (split_lines t)) \<longrightarrow>
           get_cell (sheet_after (fill_template sh (split_lines t) disk)) 2 d
             = (get_cell sh 2 d)\<lparr>cvalue := Text (take 32767 (hd (split_lines t))),
                                  wrap_text := True\<rparr>)
      \<and> (list_all accepted (split_lines t) \<longrightarrow>
           fill_raised (fill_template sh (split_lines t) disk) = None
           \<and> disk_after (fill_template sh (split_lines t) disk)
               = Some (sheet_after (fill_template sh (split_lines t) disk)))
      \<and> (\<not> list_all accepted (split_lines t) \<longrightarrow>
           fill_raised (fill_template sh (split_lines t) disk)
             = Some (Library_Error ''IllegalCharacterError'')
           \<and> disk_after (fill_template sh (split_lines t) disk) = disk
           \<and> shown (fill_template sh (split_lines t) disk) = [])
      \<and> (\<not> accepted (hd (split_lines t)) \<longrightarrow>
           (\<forall>row col. get_cell (sheet_after (fill_template sh (split_lines t) disk)) row col
                        = get_cell sh row col))
      \<and> cvalue (get_cell (sheet_after (fill_template sh (split_lines []) disk)) 2 d) = Text ''''
      \<and> fill_raised (fill_template sh (split_lines []) disk) = None
      \<and> disk_after (fill_template sh (split_lines []) disk)
          = Some (sheet_after (fill_template sh (split_lines []) disk)))"
proof -
  have ne: "split_lines t \<noteq> []" for t
    unfolding split_lines_def by (rule split_on_nonempty)
  have e: "split_lines [] = [[]]" by (simp add: split_lines_def)
  have w: "get_cell (sheet_after (fill_template sh ls disk)) 2 d
          = (get_cell sh 2 d)\<lparr>cvalue := Text (take 32767 (hd ls)), wrap_text := True\<rparr>"
    if d: "col_indices sh (Text ''Description'') = Some d" and ls: "ls \<noteq> []"
      and a: "accepted (hd ls)" for d ls
  proof -
    obtain l rest where l: "ls = l # rest" using ls by (cases ls) auto
    from a l have al: "accepted l" by simp
    show ?thesis
      unfolding fill_template_sheet[OF d] l
      using fill_rows_first[OF al desc2_col_differs[OF d], of 2 rest sh] by simp
  qed
  have k: "fill_raised (fill_template sh ls disk) = None
         \<and> disk_after (fill_template sh ls disk) = Some (sheet_after (fill_template sh ls disk))"
    if d: "col_indices sh (Text ''Description'') = Some d" and a: "list_all accepted ls" for d ls
    by (simp add: fill_template_completed[OF d a])
  have x: "fill_raised (fill_template sh ls disk) = Some (Library_Error ''IllegalCharacterError'')
         \<and> disk_after (fill_template sh ls disk) = disk
         \<and> shown (fill_template sh ls disk) = []"
    if d: "col_indices sh (Text ''Description'') = Some d" and a: "\<not> list_all accepted ls" for d ls
    by (simp add: fill_template_aborted[OF d a])
  have u: "get_cell (sheet_after (fill_template sh ls disk)) row col = get_cell sh row col"
    if d: "col_indices sh (Text ''Description'') = Some d" and ls: "ls \<noteq> []"
      and a: "\<not> accepted (hd ls)" for d ls row col
  proof -
    obtain l rest where l: "ls = l # rest" using ls by (cases ls) auto
    from a l have al: "\<not> accepted l" by simp
    show ?thesis
      unfolding fill_template_sheet[OF d] l by (rule fill_rows_first_rejected[OF al])
  qed
  have ae: "accepted (hd [[]])" "list_all accepted [[]]" by (simp_all add: accepted_empty)
  have c: "cvalue (get_cell (sheet_after (fill_template sh (split_lines []) disk)) 2 d) = Text ''''"
    if d: "col_indices sh (Text ''Description'') = Some d" for d
    unfolding e using w[OF d _ ae(1)] by simp
  have ke: "fill_raised (fill_template sh (split_lines []) disk) = None
         \<and> disk_after (fill_template sh (split_lines []) disk)
             = Some (sheet_after (fill_template sh (split_lines []) disk))"
    if d: "col_indices sh (Text ''Description'') = Some d" for d
    unfolding e using k[OF d ae(2)] .
  show ?thesis
    using ne[of t] e w[OF _ ne[of t]] k[of _ "split_lines t"] x[of _ "split_lines t"]
      u[OF _ ne[of t]] c ke
    by blast
qed

theorem fill_writes_row_2_witness:
  "col_indices example_template (Text ''Description'') = Some 2
   \<and> accepted (hd (split_lines ''''))
   \<and> list_all accepted (split_lines '''')
   \<and> get_cell (sheet_after (fill_template example_template (split_lines '''') None)) 2 2
       = \<lparr>cvalue = Text '''', wrap_text = True\<rparr>
   \<and> disk_after (fill_template example_template (split_lines '''') None)
       = Some (sheet_after (fill_template example_template (split_lines '''') None))
   \<and> \<not> accepted (hd (split_lines form_feed_text))
   \<and> \<not> list_all accepted (split_lines form_feed_text)
   \<and> fill_raised (fill_template example_template (split_lines form_feed_text) None)
       = Some (Library_Error ''IllegalCharacterError'')
   \<and> get_cell (sheet_after (fill_template example_template (split_lines form_feed_text) None)) 2 2
       = empty_cell
   \<and> disk_after (fill_template example_template (split_lines form_feed_text) None) = None"
proof -
  note d = example_columns(1)
  have g: "get_cell example_template 2 2 = empty_cell"
    by (simp add: example_template_def get_cell_def)
  have s: "split_lines form_feed_text = [form_feed_text]"
    by (simp add: split_lines_def form_feed_text_def newline_def)
  have e: "split_lines [] = [[]]" by (simp add: split_lines_def)
  have a: "accepted (hd (split_lines ''''))" "list_all accepted (split_lines '''')"
    by (simp_all add: e accepted_empty)
  have r: "\<not> accepted (hd (split_lines form_feed_text))"
    "\<not> list_all accepted (split_lines form_feed_text)"
    by (simp_all add: s form_feed_rejected)
  show ?thesis
    using d g a r
      fill_writes_row_2[of "''''" example_template None, THEN conjunct2, THEN conjunct2,
        rule_format, OF d]
      fill_writes_row_2[of form_feed_text example_template None, THEN conjunct2, THEN conjunct2,
        rule_format, OF d]
    by (simp add: empty_cell_def)
qed

subsection \<open>The review text\<close>

lemma split_lines_no_newline: "newline \<notin> set b \<Longrightarrow> split_lines b = [b]"
  unfolding split_lines_def by (rule split_on_no_sep)

lemma concat_split_lines_id:
  "\<forall>b \<in> set blocks. newline \<notin> set b \<Longrightarrow> concat (map split_lines blocks) = blocks"
  by (induction blocks) (simp_all add: split_lines_no_newline)

lemma length_split_on: "length (split_on c [] t) = Suc (length (filter (\<lambda>x. x = c) t))"
proof (induction t)
  case Nil
  then show ?case by simp
next
  case (Cons x xs)
  then show ?case
    using split_on_nonempty[of c "[]" xs]
    by (cases "split_on c [] xs") auto
qed

lemma length_split_lines: "length (split_lines b) = Suc (length (filter (\<lambda>x. x = newline) b))"
  unfolding split_lines_def by (rule length_split_on)

lemma one_line_iff: "length (split_lines b) = 1 \<longleftrightarrow> newline \<notin> set b"
  by (auto simp: length_split_lines filter_empty_conv)

lemma length_lines_ge: "length blocks \<le> length (concat (map split_lines blocks))"
  by (induction blocks) (simp_all add: length_split_lines)

lemma length_lines_eq:
  "length (concat (map split_lines blocks)) = length blocks \<Longrightarrow> b \<in> set blocks \<Longrightarrow>
   newline \<notin> set b"
proof (induction blocks)
  case Nil
  then show ?case by simp
next
  case (Cons a blocks)
  have ge: "length blocks \<le> length (concat (map split_lines blocks))"
    by (rule length_lines_ge)
  from Cons.prems(1)
  have s: "length (filter (\<lambda>x. x = newline) a) + length (concat (map split_lines blocks))
        = length blocks"
    by (simp add: length_split_lines)
  with ge have a: "length (filter (\<lambda>x. x = newline) a) = 0"
    and r: "length (concat (map split_lines blocks)) = length blocks"
    by linarith+
  from a have "newline \<notin> set a" by (auto simp: filter_empty_conv)
  with Cons.IH[OF r] Cons.prems(2) show ?case by auto
qed

lemma length_lines_iff:
  "length (concat (map split_lines blocks)) = length blocks
     \<longleftrightarrow> (\<forall>b \<in> set blocks. newline \<notin> set b)"
  using length_lines_eq[of blocks] concat_split_lines_id[of blocks] by auto

lemma lines_are_blocks_iff:
  "concat (map split_lines blocks) = blocks \<longleftrightarrow> (\<forall>b \<in> set blocks. newline \<notin> set b)"
  using length_lines_eq[of blocks] concat_split_lines_id[of blocks] by auto

lemma review_step_unedited:
  assumes "extracted_data ss = Some (Some blocks)" and "blocks \<noteq> []"
  shows "edited_data (review_step ss None) = Some (split_lines (join [newline] blocks))"
  using assms by (simp add: review_step_def has_extracted_data_def formatted_text_def)

text \<open>
  Claim C3, as stated, fails: a block that holds a newline becomes several lines, so the
  unedited lines are neither as many as the blocks nor equal to them.
\<close>

theorem unedited_lines_counterexample:
  "edited_data (review_step reviewed_session None) = Some [''a'', ''b'']
   \<and> edited_data (review_step reviewed_session None) \<noteq> Some [two_line_block]
   \<and> length (the (edited_data (review_step reviewed_session None))) \<noteq> length [two_line_block]"
  by (simp add: review_step_def has_extracted_data_def formatted_text_def reviewed_session_def
      two_line_block_def split_lines_def newline_def)

text \<open>
  Claim C3, amended. With at least one block and no user edit, the edited lines are the
  lines of the blocks in order: every block split at its newlines, one after the other.
  They are the blocks themselves if and only if no block holds a newline, and they are as
  many as the blocks if and only if no block holds a newline.
\<close>

theorem unedited_lines:
  assumes "extracted_data ss = Some (Some blocks)" and "blocks \<noteq> []"
  shows "edited_data (review_step ss None) = Some (concat (map split_lines blocks))
     \<and> (edited_data (review_step ss None) = Some blocks
          \<longleftrightarrow> (\<forall>b \<in> set blocks. newline \<notin> set b))
     \<and> (length (the (edited_data (review_step ss None))) = length blocks
          \<longleftrightarrow> (\<forall>b \<in> set blocks. newline \<notin> set b))"
proof -
  have "split_lines (join [newline] blocks) = concat (map split_lines blocks)"
    unfolding split_lines_def using assms(2) by (rule split_join)
  then have e: "edited_data (review_step ss None) = Some (concat (map split_lines blocks))"
    using review_step_unedited[OF assms] by simp
  show ?thesis
    unfolding e using lines_are_blocks_iff[of blocks] length_lines_iff[of blocks] by simp
qed

theorem unedited_lines_witness:
  "extracted_data plain_session = Some (Some [''Item A'', ''Item B''])
   \<and> [''Item A'', ''Item B''] \<noteq> []
   \<and> newline \<notin> set ''Item A'' \<and> newline \<notin> set ''Item B''
   \<and> edited_data (review_step plain_session None) = Some [''Item A'', ''Item B'']
   \<and> extracted_data reviewed_session = Some (Some [two_line_block])
   \<and> newline \<in> set two_line_block
   \<and> edited_data (review_step reviewed_session None) = Some (split_lines two_line_block)
   \<and> edited_data (review_step reviewed_session None) \<noteq> Some [two_line_block]"
proof -
  have h: "extracted_data plain_session = Some (Some [''Item A'', ''Item B''])"
    by (simp add: plain_session_def)
  have n: "\<forall>b \<in> set [''Item A'', ''Item B'']. newline \<notin> set b"
    by (simp add: newline_def)
  have ne: "[''Item A'', ''Item B''] \<noteq> []" by simp
  have p: "edited_data (review_step plain_session None) = Some [''Item A'', ''Item B'']"
    using unedited_lines[OF h ne] n by blast
  have h2: "extracted_data reviewed_session = Some (Some [two_line_block])"
    by (simp add: reviewed_session_def)
  have n2: "newline \<in> set two_line_block"
    by (simp add: two_line_block_def newline_def)
  have ne2: "[two_line_block] \<noteq> []" by simp
  note u = unedited_lines[OF h2 ne2]
  have q: "edited_data (review_step reviewed_session None) = Some (split_lines two_line_block)"
    "edited_data (review_step reviewed_session None) \<noteq> Some [two_line_block]"
    using u[THEN conjunct1] u[THEN conjunct2, THEN conjunct1] n2 by simp_all
  have "newline \<notin> set ''Item A''" "newline \<notin> set ''Item B''"
    using n by simp_all
  with p q h h2 n2 ne show ?thesis by blast
qed

subsection \<open>process\_document\<close>

text \<open>
  Claim C6. A file whose extension is neither "pdf" nor "docx" has the empty text;
  \<open>process_document\<close> returns \<^verbatim>\<open>None\<close> for it and sends nothing to the model.
\<close>

theorem unsupported_extension:
  assumes "file_extension file \<noteq> ''pdf''" and "file_extension file \<noteq> ''docx''"
  shows "document_text file = Inr []
     \<and> process_document env file = (Inr None, [])
     \<and> upload_step env empty_session (Some file)
         = (Inr (empty_session\<lparr>extracted_data := Some None, file_name := Some (name file)\<rparr>), [])"
  using assms
  by (simp add: document_text_def process_document_def upload_step_def file_changed_def
      empty_session_def)

theorem unsupported_extension_witness:
  "file_extension text_file = ''txt''
   \<and> document_text text_file = Inr []
   \<and> process_document quiet_env text_file = (Inr None, [])"
proof -
  have e: "file_extension text_file = ''txt''"
    by (simp add: file_extension_def text_file_def)
  have "file_extension text_file \<noteq> ''pdf''" "file_extension text_file \<noteq> ''docx''"
    by (simp_all add: e)
  from unsupported_extension[OF this, of quiet_env] e show ?thesis by simp
qed

lemma extract_chunks_failure:
  assumes "i < length chunks"
    and "\<forall>j<i. \<exists>c. llm (k + j) (prompt (chunks ! j)) = Inr c"
    and "llm (k + i) (prompt (chunks ! i)) = Inl e"
  shows "extract_chunks llm k chunks acc = (Inl e, map prompt (take (Suc i) chunks))"
  using assms
proof (induction chunks arbitrary: i k acc)
  case Nil
  then show ?case by simp
next
  case (Cons chunk chunks)
  show ?case
  proof (cases i)
    case 0
    with Cons.prems show ?thesis by simp
  next
    case (Suc i')
    from Cons.prems(2) Suc obtain c where c: "llm k (prompt chunk) = Inr c"
      by (metis add.right_neutral nth_Cons_0 zero_less_Suc)
    have a: "i' < length chunks" using Cons.prems(1) Suc by simp
    have b: "\<forall>j<i'. \<exists>c. llm (Suc k + j) (prompt (chunks ! j)) = Inr c"
    proof (intro allI impI)
      fix j assume "j < i'"
      then have "Suc j < i" using Suc by simp
      with Cons.prems(2) have "\<exists>c. llm (k + Suc j) (prompt ((chunk # chunks) ! Suc j)) = Inr c"
        by blast
      then show "\<exists>c. llm (Suc k + j) (prompt (chunks ! j)) = Inr c" by simp
    qed
    have d: "llm (Suc k + i') (prompt (chunks ! i')) = Inl e"
      using Cons.prems(3) Suc by simp
    from Cons.IH[OF a b d] c Suc show ?thesis by simp
  qed
qed

text \<open>
  Claim C7, as stated, fails: the exception that leaves the loop is the one the model call
  raised, and it is the same whether the call for chunk 0 or the call for chunk 1 failed,
  so it does not identify the failing chunk.
\<close>

theorem model_failure_counterexample:
  "fst (extract_chunks (failing_llm 0) 0 [''chunk 0'', ''chunk 1''] [])
      = Inl (Library_Error ''rate limit'')
   \<and> fst (extract_chunks (failing_llm 1) 0 [''chunk 0'', ''chunk 1''] [])
      = Inl (Library_Error ''rate limit'')
   \<and> fst (extract_chunks (failing_llm 0) 0 [''chunk 0'', ''chunk 1''] [])
      = fst (extract_chunks (failing_llm 1) 0 [''chunk 0'', ''chunk 1''] [])"
  by (simp add: failing_llm_def)

text \<open>
  Claim C7, amended. When the model call for chunk \<open>i\<close> raises and the calls before it
  returned, \<open>process_document\<close> raises that same exception, the prompts sent are those of
  the chunks 0 to \<open>i\<close> and no later one, and a run that was extracting ends with the
  exception and leaves the session state as it was.
\<close>

theorem model_failure_aborts:
  assumes "i < length chunks"
    and "\<forall>j<i. \<exists>c. llm_invoke env j (prompt (chunks ! j)) = Inr c"
    and "llm_invoke env i (prompt (chunks ! i)) = Inl e"
    and "document_text file = Inr text" and "text \<noteq> []"
    and "split_text env text = Inr chunks"
  shows "process_document env file = (Inl e, map prompt (take (Suc i) chunks))
     \<and> (file_changed ss (name file) = Inr True \<longrightarrow>
          upload_step env ss (Some file) = (Inl e, map prompt (take (Suc i) chunks))
        \<and> run_raised (script_run env \<lparr>inp_file = Some file, inp_template = t, inp_text = u, inp_fill = b\<rparr> ss d) = Some e
        \<and> run_session (script_run env \<lparr>inp_file = Some file, inp_template = t, inp_text = u, inp_fill = b\<rparr> ss d) = ss)"
proof -
  have x: "extract_chunks (llm_invoke env) 0 chunks []
      = (Inl e, map prompt (take (Suc i) chunks))"
    using assms(1-3) by (intro extract_chunks_failure) simp_all
  then have p: "process_document env file = (Inl e, map prompt (take (Suc i) chunks))"
    using assms(4-6) by (simp add: process_document_def)
  then show ?thesis
    by (simp add: upload_step_def script_run_def)
qed

lemma pdf_file_text: "document_text pdf_file = Inr ''page text''"
  by (simp add: document_text_def file_extension_def pdf_file_def extract_text_from_pdf_def
      strip_def isspace_def newline_def)

theorem model_failure_aborts_witness:
  "process_document (two_chunk_env 1) pdf_file
     = (Inl (Library_Error ''rate limit''), [prompt ''chunk 0'', prompt ''chunk 1''])
   \<and> process_document (two_chunk_env 0) pdf_file
     = (Inl (Library_Error ''rate limit''), [prompt ''chunk 0''])"
proof -
  have t: "''page text'' \<noteq> []" by simp
  have a: "process_document (two_chunk_env 1) pdf_file
     = (Inl (Library_Error ''rate limit''), [prompt ''chunk 0'', prompt ''chunk 1''])"
    using model_failure_aborts[of 1 "[''chunk 0'', ''chunk 1'']" "two_chunk_env 1"
        "Library_Error ''rate limit''" pdf_file "''page text''", OF _ _ _ pdf_file_text t]
    by (simp add: two_chunk_env_def failing_llm_def)
  have b: "process_document (two_chunk_env 0) pdf_file
     = (Inl (Library_Error ''rate limit''), [prompt ''chunk 0''])"
    using model_failure_aborts[of 0 "[''chunk 0'', ''chunk 1'']" "two_chunk_env 0"
        "Library_Error ''rate limit''" pdf_file "''page text''", OF _ _ _ pdf_file_text t]
    by (simp add: two_chunk_env_def failing_llm_def)
  from a b show ?thesis by simp
qed

subsection \<open>The session\<close>

lemma upload_step_consistent:
  assumes "keys_consistent ss" and "upload_step env ss up = (Inr ss', sent)"
  shows "keys_consistent ss'"
  using assms
  by (auto simp: upload_step_def keys_consistent_def
      split: option.splits sum.splits if_splits prod.splits)

lemma review_step_keys:
  "extracted_data (review_step ss u) = extracted_data ss"
  "file_name (review_step ss u) = file_name ss"
  by (simp_all add: review_step_def Let_def)

lemma script_run_consistent:
  assumes "keys_consistent ss"
  shows "keys_consistent (run_session (script_run env inp ss d))"
proof (cases "upload_step env ss (inp_file inp)")
  case (Pair r sent)
  show ?thesis
  proof (cases r)
    case (Inl e)
    with Pair assms show ?thesis by (simp add: script_run_def)
  next
    case (Inr ss1)
    with Pair assms have "keys_consistent ss1" by (auto intro: upload_step_consistent)
    then have "keys_consistent (review_step ss1 (inp_text inp))"
      by (simp add: keys_consistent_def review_step_keys)
    with Pair Inr show ?thesis by (simp add: script_run_def Let_def)
  qed
qed

lemma session_runs_consistent:
  "keys_consistent ss \<Longrightarrow> keys_consistent (fst (session_runs history ss d))"
  by (induction history ss d rule: session_runs.induct) (simp_all add: script_run_consistent)

lemma reachable_consistent: "keys_consistent (reachable_session history)"
  unfolding reachable_session_def
  by (rule session_runs_consistent) (simp add: keys_consistent_def empty_session_def)

lemma scanned_pdf_text: "document_text scanned_pdf = Inr []"
  by (simp add: document_text_def file_extension_def scanned_pdf_def extract_text_from_pdf_def
      strip_def)

text \<open>
  Claim C9, as stated, fails: after the upload of a document with another name whose text
  is empty (a scanned PDF), the session state still holds the edited lines of the previous
  document.
\<close>

theorem new_upload_counterexample:
  "file_name stored_session \<noteq> Some (name scanned_pdf)
   \<and> edited_data stored_session = Some [''Item A'']
   \<and> extracted_data (run_session (script_run quiet_env
        \<lparr>inp_file = Some scanned_pdf, inp_template = None, inp_text = None, inp_fill = False\<rparr>
        stored_session None)) = Some None
   \<and> edited_data (run_session (script_run quiet_env
        \<lparr>inp_file = Some scanned_pdf, inp_template = None, inp_text = None, inp_fill = False\<rparr>
        stored_session None)) = Some [''Item A'']"
  by (simp add: script_run_def upload_step_def file_changed_def process_document_def
      scanned_pdf_text review_step_def has_extracted_data_def stored_session_def)
     (simp add: scanned_pdf_def)

text \<open>
  Claim C9, amended. In every state that a sequence of runs reaches, an upload whose name
  is the stored file name runs no extraction and leaves the state as it is. Any other
  upload runs the extraction of the new document; when it returns, its result and the new
  name replace the stored ones, and the edited lines are replaced by the lines of the text
  area when the new result is a non-empty list, and stay as they were otherwise.
\<close>

theorem new_upload:
  assumes "ss = reachable_session history"
    and "inp_file inp = Some file"
  shows "upload_step env ss (Some file) =
      (if extracted_data ss \<noteq> None \<and> file_name ss = Some (name file) then (Inr ss, [])
       else (case process_document env file of
               (Inl e, sent) \<Rightarrow> (Inl e, sent)
             | (Inr result, sent) \<Rightarrow>
                 (Inr (ss\<lparr>extracted_data := Some result, file_name := Some (name file)\<rparr>), sent)))
    \<and> (\<forall>result sent. \<not> (extracted_data ss \<noteq> None \<and> file_name ss = Some (name file))
          \<and> process_document env file = (Inr result, sent) \<longrightarrow>
          edited_data (run_session (script_run env inp ss d)) =
            (case result of
               None \<Rightarrow> edited_data ss
             | Some blocks \<Rightarrow>
                 if blocks = [] then edited_data ss
                 else Some (split_lines (case inp_text inp of
                                           None \<Rightarrow> join [newline] blocks | Some t \<Rightarrow> t))))"
proof -
  have k: "keys_consistent ss" unfolding assms(1) by (rule reachable_consistent)
  have a: "upload_step env ss (Some file) =
      (if extracted_data ss \<noteq> None \<and> file_name ss = Some (name file) then (Inr ss, [])
       else (case process_document env file of
               (Inl e, sent) \<Rightarrow> (Inl e, sent)
             | (Inr result, sent) \<Rightarrow>
                 (Inr (ss\<lparr>extracted_data := Some result, file_name := Some (name file)\<rparr>), sent)))"
    using k
    by (auto simp: upload_step_def file_changed_def keys_consistent_def
        split: option.splits)
  have b: "edited_data (run_session (script_run env inp ss d)) =
            (case result of
               None \<Rightarrow> edited_data ss
             | Some blocks \<Rightarrow>
                 if blocks = [] then edited_data ss
                 else Some (split_lines (case inp_text inp of
                                           None \<Rightarrow> join [newline] blocks | Some t \<Rightarrow> t)))"
    if "\<not> (extracted_data ss \<noteq> None \<and> file_name ss = Some (name file))"
      and "process_document env file = (Inr result, sent)" for result sent
  proof -
    have u: "upload_step env ss (inp_file inp) =
        (Inr (ss\<lparr>extracted_data := Some result, file_name := Some (name file)\<rparr>), sent)"
      using a that assms(2) by auto
    show ?thesis
      by (simp add: script_run_def u Let_def review_step_def has_extracted_data_def
          formatted_text_def split: option.splits)
  qed
  from a b show ?thesis by blast
qed

lemma second_pdf_text: "document_text second_pdf = Inr ''other text''"
  by (simp add: document_text_def file_extension_def second_pdf_def extract_text_from_pdf_def
      strip_def isspace_def newline_def)

lemma strip_Item_B: "strip ''Item B'' = ''Item B''"
  by (simp add: strip_def isspace_def)

lemma first_history_session:
  "reachable_session first_history =
     \<lparr>extracted_data = Some (Some [''Item B'']), file_name = Some ''offer.pdf'',
      edited_data = Some [''Item B'']\<rparr>"
  by (simp add: reachable_session_def first_history_def script_run_def upload_step_def
      file_changed_def empty_session_def process_document_def pdf_file_text quiet_env_def
      strip_Item_B
      review_step_def has_extracted_data_def formatted_text_def split_lines_def newline_def)
     (simp add: pdf_file_def)

theorem new_upload_witness:
  "upload_step quiet_env (reachable_session first_history) (Some pdf_file)
      = (Inr (reachable_session first_history), [])
   \<and> upload_step quiet_env (reachable_session first_history) (Some second_pdf)
      = (Inr \<lparr>extracted_data = Some (Some [''Item B'']), file_name = Some ''second.pdf'',
              edited_data = Some [''Item B'']\<rparr>, [prompt ''other text''])"
proof -
  have p: "process_document quiet_env second_pdf = (Inr (Some [''Item B'']), [prompt ''other text''])"
    by (simp add: process_document_def second_pdf_text quiet_env_def strip_Item_B)
  have n1: "name pdf_file = ''offer.pdf''" and n2: "name second_pdf = ''second.pdf''"
    by (simp_all add: pdf_file_def second_pdf_def)
  have a: "upload_step quiet_env (reachable_session first_history) (Some pdf_file)
      = (Inr (reachable_session first_history), [])"
    using new_upload[OF refl, of "\<lparr>inp_file = Some pdf_file, inp_template = None, inp_text = None, inp_fill = False\<rparr>"
        pdf_file quiet_env first_history None, THEN conjunct1]
    by (simp add: first_history_session n1)
  have b: "upload_step quiet_env (reachable_session first_history) (Some second_pdf)
      = (Inr \<lparr>extracted_data = Some (Some [''Item B'']), file_name = Some ''second.pdf'',
              edited_data = Some [''Item B'']\<rparr>, [prompt ''other text''])"
    using new_upload[OF refl, of "\<lparr>inp_file = Some second_pdf, inp_template = None, inp_text = None, inp_fill = False\<rparr>"
        second_pdf quiet_env first_history None, THEN conjunct1]
    by (simp add: first_history_session n2 p)
  from a b show ?thesis by simp
qed

subsection \<open>The chunk splitter\<close>

lemma split_on_Cons_prefix:
  "prefix (c # cs) (x # xs) \<Longrightarrow>
   split_on c cs (x # xs) = [] # split_on c cs (drop (length cs) xs)"
  by (simp only: split_on.simps if_True)

lemma split_on_Cons_noprefix:
  "\<not> prefix (c # cs) (x # xs) \<Longrightarrow> split_on c cs xs = q # qs \<Longrightarrow>
   split_on c cs (x # xs) = (x # q) # qs"
  by (simp only: split_on.simps if_False list.case)

lemma split_on_concat:
  "split_on c cs t = p # ps \<Longrightarrow> p @ concat (map (\<lambda>q. c # cs @ q) ps) = t"
proof (induction c cs t arbitrary: p ps rule: split_on.induct)
  case (1 c cs)
  then show ?case by simp
next
  case (2 c cs x xs)
  show ?case
  proof (cases "prefix (c # cs) (x # xs)")
    case True
    then have x: "x = c" and pre: "prefix cs xs" by simp_all
    from pre have xs: "xs = cs @ drop (length cs) xs"
      by (metis append_eq_conv_conj prefixE)
    from "2.prems"[unfolded split_on_Cons_prefix[OF True]]
    have p: "p = []" and ps: "ps = split_on c cs (drop (length cs) xs)"
      by simp_all
    obtain q qs where q: "split_on c cs (drop (length cs) xs) = q # qs"
      using split_on_nonempty[of c cs "drop (length cs) xs"] by (cases "split_on c cs (drop (length cs) xs)") auto
    from "2.IH"(1)[OF True q] have "q @ concat (map (\<lambda>q. c # cs @ q) qs) = drop (length cs) xs" .
    then have "concat (map (\<lambda>q. c # cs @ q) ps) = c # cs @ drop (length cs) xs"
      by (simp add: ps q)
    also have "\<dots> = x # xs" using x xs by simp
    finally show ?thesis unfolding p by simp
  next
    case False
    obtain q qs where q: "split_on c cs xs = q # qs"
      using split_on_nonempty[of c cs xs] by (cases "split_on c cs xs") auto
    from "2.prems"[unfolded split_on_Cons_noprefix[OF False q]]
    have p: "p = x # q" and ps: "ps = qs" by simp_all
    from "2.IH"(2)[OF False q] have "q @ concat (map (\<lambda>q. c # cs @ q) qs) = xs" .
    with p ps show ?thesis by simp
  qed
qed

lemma concat_filter_nonempty: "concat (filter (\<lambda>s. s \<noteq> []) xs) = concat xs"
  by (induction xs) auto

lemma concat_singletons: "concat (map (\<lambda>c. [c]) t) = t"
  by (induction t) auto

lemma split_text_with_regex_concat: "concat (split_text_with_regex t sep) = t"
proof (cases sep)
  case Nil
  then show ?thesis
    by (simp add: split_text_with_regex_def concat_filter_nonempty concat_singletons)
next
  case (Cons c cs)
  obtain p ps where p: "split_on c cs t = p # ps"
    using split_on_nonempty[of c cs t] by (cases "split_on c cs t") auto
  have eq: "(\<lambda>q. c # cs @ q) = (@) (c # cs)" by (rule ext) simp
  from split_on_concat[OF p] have "p @ concat (map ((@) (c # cs)) ps) = t"
    unfolding eq .
  then show ?thesis
    by (simp add: split_text_with_regex_def Cons p concat_filter_nonempty del: filter.simps)
qed

lemma split_text_with_regex_nonempty: "\<forall>s \<in> set (split_text_with_regex t sep). s \<noteq> []"
  by (simp add: split_text_with_regex_def)

lemma split_text_with_regex_chars:
  "s \<in> set (split_text_with_regex t []) \<Longrightarrow> length s = 1"
  by (auto simp: split_text_with_regex_def)

lemma pop_front_all:
  "total_len = int (length (concat cur)) \<Longrightarrow> \<forall>d \<in> set cur. d \<noteq> [] \<Longrightarrow>
   pop_front cs 0 len total_len cur = Some (0, [])"
proof (induction cur arbitrary: total_len)
  case Nil
  then show ?case by simp
next
  case (Cons d cur)
  then have "d \<noteq> []" by simp
  then have "0 < int (length d)" by simp
  moreover have "total_len = int (length d) + int (length (concat cur))"
    using Cons.prems(1) by simp
  ultimately have pos: "0 < total_len" by linarith
  have "pop_front cs 0 len (total_len - int (length d)) cur = Some (0, [])"
    using Cons.prems by (intro Cons.IH) simp_all
  with pos show ?case by simp
qed

lemma join_docs_strip: "join_docs cur = filter (\<lambda>c. c \<noteq> []) (map strip [concat cur])"
  by (simp add: join_docs_def Let_def)

lemma merge_loop_chunks:
  assumes "\<forall>d \<in> set ds. d \<noteq> [] \<and> int (length d) \<le> cs"
    and "\<forall>d \<in> set cur. d \<noteq> []"
    and "total_len = int (length (concat cur))"
    and "total_len \<le> cs"
  shows "\<exists>groups. merge_loop cs 0 ds docs cur total_len
           = Some (docs @ filter (\<lambda>c. c \<noteq> []) (map strip groups))
         \<and> concat groups = concat cur @ concat ds
         \<and> (\<forall>g \<in> set groups. int (length g) \<le> cs)"
  using assms
proof (induction ds arbitrary: docs cur total_len)
  case Nil
  have "merge_loop cs 0 [] docs cur total_len
      = Some (docs @ filter (\<lambda>c. c \<noteq> []) (map strip [concat cur]))"
    by (simp add: join_docs_strip)
  moreover have "concat [concat cur] = concat cur @ concat []" by simp
  moreover have "\<forall>g \<in> set [concat cur]. int (length g) \<le> cs" using Nil by simp
  ultimately show ?case by blast
next
  case (Cons d ds)
  have d: "d \<noteq> []" "int (length d) \<le> cs" using Cons.prems(1) by simp_all
  have ds: "\<forall>d \<in> set ds. d \<noteq> [] \<and> int (length d) \<le> cs" using Cons.prems(1) by simp
  show ?case
  proof (cases "total_len + int (length d) > cs \<and> cur \<noteq> []")
    case True
    have pop: "pop_front cs 0 (int (length d)) total_len cur = Some (0, [])"
      using Cons.prems(2,3) by (intro pop_front_all) simp_all
    have step: "merge_loop cs 0 (d # ds) docs cur total_len
        = merge_loop cs 0 ds (docs @ join_docs cur) [d] (int (length d))"
      using True pop by simp
    have "\<exists>groups. merge_loop cs 0 ds (docs @ join_docs cur) [d] (int (length d))
           = Some ((docs @ join_docs cur) @ filter (\<lambda>c. c \<noteq> []) (map strip groups))
         \<and> concat groups = concat [d] @ concat ds
         \<and> (\<forall>g \<in> set groups. int (length g) \<le> cs)"
      using ds d by (intro Cons.IH) simp_all
    then obtain groups where g:
      "merge_loop cs 0 ds (docs @ join_docs cur) [d] (int (length d))
           = Some ((docs @ join_docs cur) @ filter (\<lambda>c. c \<noteq> []) (map strip groups))"
      "concat groups = concat [d] @ concat ds"
      "\<forall>g \<in> set groups. int (length g) \<le> cs" by blast
    have "merge_loop cs 0 (d # ds) docs cur total_len
        = Some (docs @ filter (\<lambda>c. c \<noteq> []) (map strip (concat cur # groups)))"
      using step g(1) by (simp add: join_docs_strip)
    moreover have "concat (concat cur # groups) = concat cur @ concat (d # ds)"
      using g(2) by simp
    moreover have "\<forall>g \<in> set (concat cur # groups). int (length g) \<le> cs"
      using g(3) Cons.prems(3,4) by simp
    ultimately show ?thesis by blast
  next
    case False
    have fits: "total_len + int (length d) \<le> cs"
    proof (cases "cur = []")
      case True
      then show ?thesis using Cons.prems(3) d by simp
    next
      case False
      with \<open>\<not> (total_len + int (length d) > cs \<and> cur \<noteq> [])\<close> show ?thesis by simp
    qed
    have step: "merge_loop cs 0 (d # ds) docs cur total_len
        = merge_loop cs 0 ds docs (cur @ [d]) (total_len + int (length d))"
      by (simp only: merge_loop.simps False if_False)
    have "\<exists>groups. merge_loop cs 0 ds docs (cur @ [d]) (total_len + int (length d))
           = Some (docs @ filter (\<lambda>c. c \<noteq> []) (map strip groups))
         \<and> concat groups = concat (cur @ [d]) @ concat ds
         \<and> (\<forall>g \<in> set groups. int (length g) \<le> cs)"
      using ds d Cons.prems(2,3) fits by (intro Cons.IH) simp_all
    then show ?thesis using step by simp
  qed
qed

lemma chunks_of_Nil: "0 \<le> cs \<Longrightarrow> chunks_of cs [] []"
  unfolding chunks_of_def by (rule exI[of _ "[]"]) simp

lemma chunks_of_append:
  assumes "chunks_of cs t1 c1" and "chunks_of cs t2 c2"
  shows "chunks_of cs (t1 @ t2) (c1 @ c2)"
proof -
  from assms obtain g1 g2 where
    "concat g1 = t1" "\<forall>g \<in> set g1. int (length g) \<le> cs" "c1 = filter (\<lambda>c. c \<noteq> []) (map strip g1)"
    "concat g2 = t2" "\<forall>g \<in> set g2. int (length g) \<le> cs" "c2 = filter (\<lambda>c. c \<noteq> []) (map strip g2)"
    unfolding chunks_of_def by blast
  then have "concat (g1 @ g2) = t1 @ t2 \<and> (\<forall>g \<in> set (g1 @ g2). int (length g) \<le> cs)
      \<and> c1 @ c2 = filter (\<lambda>c. c \<noteq> []) (map strip (g1 @ g2))"
    by auto
  then show ?thesis unfolding chunks_of_def by blast
qed

lemma merge_splits_chunks:
  assumes "\<forall>d \<in> set ds. d \<noteq> [] \<and> int (length d) < cs" and "0 \<le> cs"
  shows "\<exists>chunks. merge_splits cs 0 ds = Some chunks \<and> chunks_of cs (concat ds) chunks"
proof -
  have "\<exists>groups. merge_loop cs 0 ds [] [] 0
           = Some ([] @ filter (\<lambda>c. c \<noteq> []) (map strip groups))
         \<and> concat groups = concat [] @ concat ds
         \<and> (\<forall>g \<in> set groups. int (length g) \<le> cs)"
    using assms by (intro merge_loop_chunks) auto
  then show ?thesis
    unfolding merge_splits_def chunks_of_def by auto
qed

lemma split_loop_chunks:
  assumes "\<forall>s \<in> set ss. s \<noteq> []"
    and "\<forall>s \<in> set ss. cs \<le> int (length s) \<longrightarrow>
           (\<exists>f chunks. deeper = Some f \<and> f s = Some chunks \<and> chunks_of cs s chunks)"
    and "\<forall>g \<in> set good. g \<noteq> [] \<and> int (length g) < cs"
    and "0 \<le> cs"
  shows "\<exists>chunks. split_loop cs 0 deeper ss good final = Some (final @ chunks)
           \<and> chunks_of cs (concat good @ concat ss) chunks"
  using assms(1-3)
proof (induction ss arbitrary: good final)
  case Nil
  show ?case
  proof (cases "good = []")
    case True
    then show ?thesis using chunks_of_Nil[OF assms(4)] by simp
  next
    case False
    from merge_splits_chunks[OF Nil.prems(3) assms(4)] obtain chunks where
      "merge_splits cs 0 good = Some chunks" "chunks_of cs (concat good) chunks" by blast
    with False show ?thesis by simp
  qed
next
  case (Cons s ss)
  have ss1: "\<forall>s \<in> set ss. s \<noteq> []" using Cons.prems(1) by simp
  have ss2: "\<forall>s \<in> set ss. cs \<le> int (length s) \<longrightarrow>
           (\<exists>f chunks. deeper = Some f \<and> f s = Some chunks \<and> chunks_of cs s chunks)"
    using Cons.prems(2) by simp
  show ?case
  proof (cases "int (length s) < cs")
    case True
    have g: "\<forall>g \<in> set (good @ [s]). g \<noteq> [] \<and> int (length g) < cs"
      using Cons.prems(1,3) True by simp
    from Cons.IH[OF ss1 ss2 g, of final] True show ?thesis by simp
  next
    case False
    then obtain f other where f: "deeper = Some f" "f s = Some other" "chunks_of cs s other"
      using Cons.prems(2) by fastforce
    obtain m where m: "(if good \<noteq> [] then merge_splits cs 0 good else Some []) = Some m"
      "chunks_of cs (concat good) m"
    proof (cases "good = []")
      case True
      then show ?thesis using that[of "[]"] chunks_of_Nil[OF assms(4)] by simp
    next
      case False
      from merge_splits_chunks[OF Cons.prems(3) assms(4)] obtain chunks where
        "merge_splits cs 0 good = Some chunks" "chunks_of cs (concat good) chunks" by blast
      with False that show ?thesis by simp
    qed
    have e: "\<forall>g \<in> set []. g \<noteq> [] \<and> int (length g) < cs" by simp
    from Cons.IH[OF ss1 ss2 e, of "final @ m @ other"] obtain chunks where c:
      "split_loop cs 0 deeper ss [] (final @ m @ other) = Some ((final @ m @ other) @ chunks)"
      "chunks_of cs (concat [] @ concat ss) chunks" by blast
    have "split_loop cs 0 deeper (s # ss) good final = Some (final @ (m @ other @ chunks))"
      using False f m(1) c(1) by simp
    moreover have "chunks_of cs (concat good @ concat (s # ss)) (m @ other @ chunks)"
      using chunks_of_append[OF m(2) chunks_of_append[OF f(3) c(2)]] by simp
    ultimately show ?thesis by blast
  qed
qed

lemma choose_separator_cases:
  assumes "last (s # rest) = []" and "choose_separator t s rest = (sep, new)"
  shows "(sep = [] \<and> new = []) \<or> (sep \<noteq> [] \<and> occurs sep t \<and> sep \<in> set (s # rest) \<and> new \<noteq> [] \<and> last new = [])"
  using assms
proof (induction t s rest rule: choose_separator.induct)
  case (1 t s rest)
  show ?case
  proof (cases "s = []")
    case True
    with "1.prems"(2) show ?thesis by (simp add: choose_separator.simps)
  next
    case s: False
    show ?thesis
    proof (cases "occurs s t")
      case True
      with s "1.prems" show ?thesis
        by (cases rest) (auto simp: choose_separator.simps)
    next
      case False
      show ?thesis
      proof (cases rest)
        case Nil
        with s "1.prems"(1) show ?thesis by simp
      next
        case (Cons s' rest')
        have l: "last (s' # rest') = []" using "1.prems"(1) Cons by simp
        have c: "choose_separator t s' rest' = (sep, new)"
          using "1.prems"(2) s False Cons by (simp add: choose_separator.simps)
        from "1.IH"[OF s False Cons l c] Cons show ?thesis by auto
      qed
    qed
  qed
qed

theorem split_text_rec_chunks:
  assumes "2 \<le> cs" and "last (s # rest) = []"
  shows "\<exists>chunks. split_text_rec cs 0 t s rest = Some chunks \<and> chunks_of cs t chunks"
  using assms(2)
proof (induction "length rest" arbitrary: t s rest rule: less_induct)
  case less
  obtain sep new where ch: "choose_separator t s rest = (sep, new)"
    by (cases "choose_separator t s rest") auto
  let ?deeper = "case new of [] \<Rightarrow> None
                 | s' # rest' \<Rightarrow> Some (\<lambda>piece. split_text_rec cs 0 piece s' rest')"
  let ?splits = "split_text_with_regex t sep"
  have unfold: "split_text_rec cs 0 t s rest = split_loop cs 0 ?deeper ?splits [] []"
    by (subst split_text_rec.simps) (simp add: ch)
  have ne: "\<forall>x \<in> set ?splits. x \<noteq> []" by (rule split_text_with_regex_nonempty)
  have deep: "\<forall>x \<in> set ?splits. cs \<le> int (length x) \<longrightarrow>
           (\<exists>f chunks. ?deeper = Some f \<and> f x = Some chunks \<and> chunks_of cs x chunks)"
  proof (intro ballI impI)
    fix x assume x: "x \<in> set ?splits" and big: "cs \<le> int (length x)"
    from choose_separator_cases[OF less.prems ch]
    show "\<exists>f chunks. ?deeper = Some f \<and> f x = Some chunks \<and> chunks_of cs x chunks"
    proof
      assume "sep = [] \<and> new = []"
      then have "length x = 1" using x split_text_with_regex_chars by simp
      with big assms(1) show ?thesis by simp
    next
      assume a: "sep \<noteq> [] \<and> occurs sep t \<and> sep \<in> set (s # rest) \<and> new \<noteq> [] \<and> last new = []"
      then obtain s' rest' where new: "new = s' # rest'" by (cases new) auto
      have "length new \<le> length rest" using ch by (rule choose_separator_shorter)
      then have shorter: "length rest' < length rest" using new by simp
      have l: "last (s' # rest') = []" using a new by simp
      from less.hyps[OF shorter l, of x] new show ?thesis by auto
    qed
  qed
  have "\<exists>chunks. split_loop cs 0 ?deeper ?splits [] [] = Some ([] @ chunks)
           \<and> chunks_of cs (concat [] @ concat ?splits) chunks"
    using ne deep assms(1) by (intro split_loop_chunks) simp_all
  then show ?case
    unfolding unfold by (simp add: split_text_with_regex_concat)
qed

lemma length_strip_le: "length (strip g) \<le> length g"
proof -
  have "length (dropWhile isspace (rev (dropWhile isspace g))) \<le> length (rev (dropWhile isspace g))"
    by (rule length_dropWhile_le)
  also have "\<dots> \<le> length g" by (simp add: length_dropWhile_le)
  finally show ?thesis by (simp add: strip_def)
qed

lemma filter_dropWhile_neg: "filter (\<lambda>c. \<not> P c) (dropWhile P xs) = filter (\<lambda>c. \<not> P c) xs"
  by (induction xs) auto

lemma filter_strip: "filter (\<lambda>c. \<not> isspace c) (strip g) = filter (\<lambda>c. \<not> isspace c) g"
proof -
  have "filter (\<lambda>c. \<not> isspace c) (strip g)
      = rev (filter (\<lambda>c. \<not> isspace c) (dropWhile isspace (rev (dropWhile isspace g))))"
    by (simp add: strip_def rev_filter)
  also have "\<dots> = rev (filter (\<lambda>c. \<not> isspace c) (rev (dropWhile isspace g)))"
    by (simp only: filter_dropWhile_neg)
  also have "\<dots> = filter (\<lambda>c. \<not> isspace c) (dropWhile isspace g)"
    by (simp add: rev_filter)
  also have "\<dots> = filter (\<lambda>c. \<not> isspace c) g" by (rule filter_dropWhile_neg)
  finally show ?thesis .
qed

lemma filter_concat_strip:
  "filter (\<lambda>c. \<not> isspace c) (concat (filter (\<lambda>c. c \<noteq> []) (map strip groups)))
     = filter (\<lambda>c. \<not> isspace c) (concat groups)"
proof (induction groups)
  case Nil
  then show ?case by simp
next
  case (Cons g groups)
  have "filter (\<lambda>c. \<not> isspace c) (strip g) = filter (\<lambda>c. \<not> isspace c) g"
    by (rule filter_strip)
  then have "strip g = [] \<Longrightarrow> filter (\<lambda>c. \<not> isspace c) g = []" by simp
  with Cons show ?case by (auto simp: filter_strip)
qed

lemma chunks_of_sizes: "chunks_of cs t chunks \<Longrightarrow> c \<in> set chunks \<Longrightarrow> int (length c) \<le> cs"
proof -
  assume "chunks_of cs t chunks" and c: "c \<in> set chunks"
  then obtain groups where g: "\<forall>g \<in> set groups. int (length g) \<le> cs"
    "chunks = filter (\<lambda>c. c \<noteq> []) (map strip groups)"
    unfolding chunks_of_def by blast
  from c g(2) obtain g where "g \<in> set groups" "c = strip g" by auto
  with g(1) length_strip_le[of g] show ?thesis by fastforce
qed

lemma chunks_of_content:
  "chunks_of cs t chunks \<Longrightarrow>
   filter (\<lambda>c. \<not> isspace c) (concat chunks) = filter (\<lambda>c. \<not> isspace c) t"
  unfolding chunks_of_def using filter_concat_strip by auto

lemma last_dropWhile: "dropWhile P xs \<noteq> [] \<Longrightarrow> last (dropWhile P xs) = last xs"
  by (induction xs) (auto split: if_splits)

lemma stripped_strip: "stripped (strip s)"
proof -
  let ?a = "dropWhile isspace s"
  let ?b = "dropWhile isspace (rev ?a)"
  have s: "strip s = rev ?b" by (simp add: strip_def)
  show ?thesis
  proof (cases "?b = []")
    case True
    then show ?thesis by (simp add: s stripped_def)
  next
    case False
    have a: "?a \<noteq> []"
    proof
      assume e: "?a = []"
      have "?b = []" unfolding e by simp
      with False show False by blast
    qed
    have "\<not> isspace (hd ?b)" using False by (rule hd_dropWhile)
    then have l: "\<not> isspace (last (rev ?b))" using False by (simp add: last_rev)
    have "last ?b = last (rev ?a)" using False by (rule last_dropWhile)
    then have "hd (rev ?b) = hd ?a" using False a by (simp add: hd_rev last_rev)
    moreover have "\<not> isspace (hd ?a)" using a by (rule hd_dropWhile)
    ultimately have "\<not> isspace (hd (rev ?b))" by simp
    with l show ?thesis by (simp add: s stripped_def)
  qed
qed

lemma strip_stripped: "stripped t \<Longrightarrow> strip t = t"
proof (cases "t = []")
  case True
  then show ?thesis by (simp add: strip_def)
next
  case False
  assume "stripped t"
  with False have h: "\<not> isspace (hd t)" and l: "\<not> isspace (last t)"
    by (simp_all add: stripped_def)
  have a: "dropWhile isspace t = t" using False h by (cases t) auto
  have "rev t \<noteq> []" "\<not> isspace (hd (rev t))" using False l by (simp_all add: hd_rev)
  then have b: "dropWhile isspace (rev t) = rev t" by (cases "rev t") auto
  show ?thesis by (simp add: strip_def a b)
qed

lemma stripped_iff: "stripped t \<longleftrightarrow> strip t = t"
  using stripped_strip[of t] strip_stripped[of t] by auto

lemma join_ends:
  "xs \<noteq> [] \<Longrightarrow> \<forall>x \<in> set xs. x \<noteq> [] \<Longrightarrow>
   join sep xs \<noteq> [] \<and> hd (join sep xs) = hd (hd xs) \<and> last (join sep xs) = last (last xs)"
proof (induction xs)
  case Nil
  then show ?case by simp
next
  case (Cons x xs)
  show ?case
  proof (cases xs)
    case Nil
    with Cons.prems show ?thesis by simp
  next
    case (Cons y ys)
    with Cons.IH Cons.prems have "join sep (y # ys) \<noteq> []"
      "last (join sep (y # ys)) = last (last (y # ys))" by simp_all
    with Cons Cons.prems show ?thesis by simp
  qed
qed

lemma document_text_stripped:
  assumes "document_text file = Inr t"
  shows "strip t = t"
proof -
  have "stripped t"
  proof (cases "file_extension file = ''pdf''")
    case True
    with assms obtain pages where "t = strip (pdf_pages_loop pages [])"
      by (auto simp: document_text_def extract_text_from_pdf_def split: sum.splits)
    then show ?thesis by (simp add: stripped_strip)
  next
    case False
    show ?thesis
    proof (cases "file_extension file = ''docx''")
      case True
      with False assms obtain paragraphs where
        t: "t = join [newline] (map strip (filter (\<lambda>p. strip p \<noteq> []) paragraphs))"
        by (auto simp: document_text_def extract_text_from_docx_def split: sum.splits)
      let ?xs = "map strip (filter (\<lambda>p. strip p \<noteq> []) paragraphs)"
      show ?thesis
      proof (cases "?xs = []")
        case True
        then show ?thesis by (simp add: t stripped_def)
      next
        case ne: False
        have all: "\<forall>x \<in> set ?xs. x \<noteq> []" by auto
        from join_ends[OF ne all, of "[newline]"]
        have j: "join [newline] ?xs \<noteq> []" "hd (join [newline] ?xs) = hd (hd ?xs)"
          "last (join [newline] ?xs) = last (last ?xs)" by simp_all
        have "hd ?xs \<in> set ?xs" "last ?xs \<in> set ?xs"
          using ne hd_in_set[of ?xs] last_in_set[of ?xs] by blast+
        then obtain p q where p: "hd ?xs = strip p" "strip p \<noteq> []"
          and q: "last ?xs = strip q" "strip q \<noteq> []" by auto
        have "\<not> isspace (hd (strip p))" "\<not> isspace (last (strip q))"
          using stripped_strip[of p] stripped_strip[of q] p(2) q(2)
          by (simp_all add: stripped_def)
        then show ?thesis using j p(1) q(1) by (simp add: t stripped_def)
      qed
    next
      case False
      with \<open>file_extension file \<noteq> ''pdf''\<close> assms show ?thesis
        by (simp add: document_text_def stripped_def)
    qed
  qed
  then show ?thesis by (rule strip_stripped)
qed

lemma merge_loop_fits:
  assumes "total_len = int (length (concat cur))"
    and "int (length (concat cur) + length (concat ds)) \<le> cs"
  shows "merge_loop cs ov ds docs cur total_len = Some (docs @ join_docs (cur @ ds))"
  using assms
proof (induction ds arbitrary: cur total_len)
  case Nil
  then show ?case by simp
next
  case (Cons d ds)
  have fits: "\<not> (total_len + int (length d) > cs \<and> cur \<noteq> [])"
    using Cons.prems by simp
  have step: "merge_loop cs ov (d # ds) docs cur total_len
        = merge_loop cs ov ds docs (cur @ [d]) (total_len + int (length d))"
    by (simp only: merge_loop.simps fits if_False)
  have "merge_loop cs ov ds docs (cur @ [d]) (total_len + int (length d))
      = Some (docs @ join_docs ((cur @ [d]) @ ds))"
    using Cons.prems by (intro Cons.IH) simp_all
  with step show ?case by simp
qed

lemma split_loop_all_good:
  assumes "\<forall>s \<in> set ss. int (length s) < cs"
  shows "split_loop cs ov deeper ss good final =
     (if good @ ss \<noteq> []
      then (case merge_splits cs ov (good @ ss) of None \<Rightarrow> None | Some m \<Rightarrow> Some (final @ m))
      else Some final)"
  using assms
proof (induction ss arbitrary: good)
  case Nil
  then show ?case by simp
next
  case (Cons s ss)
  then have "split_loop cs ov deeper (s # ss) good final
      = split_loop cs ov deeper ss (good @ [s]) final" by simp
  also have "\<dots> = (if (good @ [s]) @ ss \<noteq> []
      then (case merge_splits cs ov ((good @ [s]) @ ss) of None \<Rightarrow> None | Some m \<Rightarrow> Some (final @ m))
      else Some final)"
    using Cons.prems by (intro Cons.IH) simp
  finally show ?case by simp
qed

lemma occurs_split_on:
  "occurs (c # cs) t \<Longrightarrow> split_on c cs t = p # ps \<Longrightarrow> ps \<noteq> []"
proof (induction c cs t arbitrary: p ps rule: split_on.induct)
  case (1 c cs)
  then show ?case by simp
next
  case (2 c cs x xs)
  show ?case
  proof (cases "prefix (c # cs) (x # xs)")
    case True
    from "2.prems"(2)[unfolded split_on_Cons_prefix[OF True]]
    have "ps = split_on c cs (drop (length cs) xs)" by simp
    then show ?thesis by (simp add: split_on_nonempty)
  next
    case False
    obtain q qs where q: "split_on c cs xs = q # qs"
      using split_on_nonempty[of c cs xs] by (cases "split_on c cs xs") auto
    from "2.prems"(2)[unfolded split_on_Cons_noprefix[OF False q]]
    have ps: "ps = qs" by simp
    have "occurs (c # cs) xs" using "2.prems"(1) False by auto
    from "2.IH"(2)[OF False this q] ps show ?thesis by simp
  qed
qed

lemma split_on_first_nonempty:
  "t \<noteq> [] \<Longrightarrow> \<not> prefix (c # cs) t \<Longrightarrow> split_on c cs t = p # ps \<Longrightarrow> p \<noteq> []"
proof (cases t)
  case Nil
  assume "t \<noteq> []"
  with Nil show ?thesis by simp
next
  case (Cons x xs)
  assume np: "\<not> prefix (c # cs) t" and s: "split_on c cs t = p # ps"
  obtain q qs where q: "split_on c cs xs = q # qs"
    using split_on_nonempty[of c cs xs] by (cases "split_on c cs xs") auto
  from np Cons have "\<not> prefix (c # cs) (x # xs)" by simp
  from s[unfolded Cons split_on_Cons_noprefix[OF this q]] show ?thesis by auto
qed

lemma length_le_concat: "s \<in> set xs \<Longrightarrow> length s \<le> length (concat xs)"
  by (induction xs) auto

lemma pieces_shorter:
  assumes "p \<noteq> []" and "rest \<noteq> []" and "\<forall>r \<in> set rest. r \<noteq> []" and "s \<in> set (p # rest)"
  shows "length s < length (concat (p # rest))"
proof (cases "s = p")
  case True
  obtain r where r: "r \<in> set rest" using assms(2) by (cases rest) auto
  then have "r \<noteq> []" using assms(3) by blast
  then have "0 < length r" by simp
  moreover have "length r \<le> length (concat rest)" using r by (rule length_le_concat)
  ultimately have "0 < length (concat rest)" by linarith
  then have "length p < length (concat (p # rest))" by simp
  with True show ?thesis by blast
next
  case False
  with assms(4) have "s \<in> set rest" by simp
  then have "length s \<le> length (concat rest)" by (rule length_le_concat)
  moreover have "0 < length p" using assms(1) by simp
  moreover have "length (concat (p # rest)) = length p + length (concat rest)" by simp
  ultimately show ?thesis by linarith
qed

lemma isspace_newline: "isspace newline"
  by (simp add: isspace_def newline_def)

lemma isspace_blank: "isspace (CHR '' '')"
  by (simp add: isspace_def)

lemma default_separator_space:
  assumes "sep \<in> set [[newline, newline], [newline], '' '', []]" and "sep \<noteq> []"
  shows "isspace (hd sep)"
proof -
  from assms have "sep = [newline, newline] \<or> sep = [newline] \<or> sep = '' ''"
    by (simp only: set_simps insert_iff empty_iff) blast
  then show ?thesis
    using isspace_newline isspace_blank by (elim disjE) (simp_all only: list.sel)
qed

lemma stripped_no_space_prefix:
  assumes "strip t = t" and "t \<noteq> []" and "isspace c"
  shows "\<not> prefix (c # cs) t"
proof
  assume "prefix (c # cs) t"
  then have "hd t = c" using assms(2) by (cases t) auto
  moreover have "\<not> isspace (hd t)"
    using assms(1,2) stripped_iff[of t] by (simp add: stripped_def)
  ultimately show False using assms(3) by simp
qed

lemma splits_short:
  assumes "strip t = t" and "t \<noteq> []"
    and "choose_separator t [newline, newline] [[newline], '' '', []] = (sep, new)"
    and "2 \<le> cs" and "int (length t) \<le> cs"
  shows "\<forall>s \<in> set (split_text_with_regex t sep). int (length s) < cs"
proof
  fix s assume s: "s \<in> set (split_text_with_regex t sep)"
  have l: "last ([newline, newline] # [[newline], '' '', []]) = []" by simp
  from choose_separator_cases[OF l assms(3)]
  show "int (length s) < cs"
  proof
    assume "sep = [] \<and> new = []"
    then have "length s = 1" using s split_text_with_regex_chars by simp
    with assms(4) show ?thesis by simp
  next
    assume a: "sep \<noteq> [] \<and> occurs sep t
      \<and> sep \<in> set ([newline, newline] # [[newline], '' '', []]) \<and> new \<noteq> [] \<and> last new = []"
    then have m: "sep \<in> set [[newline, newline], [newline], '' '', []]" and n: "sep \<noteq> []"
      by auto
    obtain c cs' where sep: "sep = c # cs'" using n by (cases sep) auto
    have sp: "isspace c" using default_separator_space[OF m n] by (simp add: sep)
    obtain p ps where p: "split_on c cs' t = p # ps"
      using split_on_nonempty[of c cs' t] by (cases "split_on c cs' t") auto
    have np: "\<not> prefix (c # cs') t"
      using assms(1,2) sp by (rule stripped_no_space_prefix)
    have p1: "p \<noteq> []" using assms(2) np p by (rule split_on_first_nonempty)
    have p2: "ps \<noteq> []" using a p unfolding sep by (auto dest: occurs_split_on)
    let ?rest = "map (\<lambda>q. sep @ q) ps"
    have r1: "?rest \<noteq> []" using p2 by simp
    have r2: "\<forall>r \<in> set ?rest. r \<noteq> []" using a by simp
    have eq: "split_text_with_regex t sep = p # ?rest"
      using p1 r2 by (simp add: split_text_with_regex_def sep p filter_id_conv)
    have "length s < length (concat (p # ?rest))"
      using p1 r1 r2 s[unfolded eq] by (rule pieces_shorter)
    also have "concat (p # ?rest) = t"
      using split_text_with_regex_concat[of t sep] by (simp only: eq)
    finally show ?thesis using assms(5) by simp
  qed
qed

theorem single_chunk:
  assumes "strip t = t" and "t \<noteq> []" and "2 \<le> cs" and "int (length t) \<le> cs"
  shows "recursive_split_text cs ov t = Some [t]"
proof -
  obtain sep new where ch: "choose_separator t [newline, newline] [[newline], '' '', []] = (sep, new)"
    by (cases "choose_separator t [newline, newline] [[newline], '' '', []]") auto
  let ?deeper = "case new of [] \<Rightarrow> None
                 | s' # rest' \<Rightarrow> Some (\<lambda>piece. split_text_rec cs ov piece s' rest')"
  let ?splits = "split_text_with_regex t sep"
  have unfold: "recursive_split_text cs ov t = split_loop cs ov ?deeper ?splits [] []"
    unfolding recursive_split_text_def by (subst split_text_rec.simps) (simp add: ch)
  have short: "\<forall>s \<in> set ?splits. int (length s) < cs"
    using assms(1,2) ch assms(3,4) by (rule splits_short)
  have c: "concat ?splits = t" by (rule split_text_with_regex_concat)
  then have ne: "?splits \<noteq> []" using assms(2) by auto
  have m: "merge_splits cs ov ?splits = Some ([] @ join_docs ([] @ ?splits))"
    unfolding merge_splits_def using assms(4) c by (intro merge_loop_fits) simp_all
  have j: "join_docs ?splits = [t]"
    using assms(1,2) by (simp add: join_docs_def c)
  have "split_loop cs ov ?deeper ?splits [] [] = Some [t]"
    using ne m j by (simp add: split_loop_all_good[OF short])
  with unfold show ?thesis by simp
qed

lemma split_empty_text: "recursive_split_text cs ov [] = Some []"
  unfolding recursive_split_text_def
  by (subst split_text_rec.simps)
     (simp add: choose_separator.simps split_text_with_regex_def newline_def)

lemma splitter_example:
  "recursive_split_text 10 0 ''hello world foo bar'' = Some [''hello'', ''world foo'', ''bar'']"
  by code_simp

lemma occurs_subset: "occurs s t \<Longrightarrow> set s \<subseteq> set t"
proof (induction t)
  case Nil
  then show ?case by simp
next
  case (Cons x xs)
  then show ?case using set_mono_prefix[of s "x # xs"] by auto
qed

lemma choose_separator_plain:
  assumes "newline \<notin> set t" and "CHR '' '' \<notin> set t"
  shows "choose_separator t [newline, newline] [[newline], '' '', []] = ([], [])"
proof -
  have a: "\<not> occurs [newline, newline] t" "\<not> occurs [newline] t" "\<not> occurs '' '' t"
    using assms occurs_subset by fastforce+
  show ?thesis
    by (simp add: choose_separator.simps[of t] a)
qed

lemma merge_loop_prefix_fits:
  assumes "total_len = int (length (concat cur))"
    and "int (length (concat cur) + length (concat xs)) \<le> cs"
  shows "merge_loop cs ov (xs @ ys) docs cur total_len
       = merge_loop cs ov ys docs (cur @ xs) (total_len + int (length (concat xs)))"
  using assms
proof (induction xs arbitrary: cur total_len)
  case Nil
  then show ?case by simp
next
  case (Cons d xs)
  have fits: "\<not> (total_len + int (length d) > cs \<and> cur \<noteq> [])"
    using Cons.prems by simp
  have step: "merge_loop cs ov ((d # xs) @ ys) docs cur total_len
        = merge_loop cs ov (xs @ ys) docs (cur @ [d]) (total_len + int (length d))"
    by (simp only: append_Cons merge_loop.simps fits if_False)
  note step
  also have "merge_loop cs ov (xs @ ys) docs (cur @ [d]) (total_len + int (length d))
      = merge_loop cs ov ys docs ((cur @ [d]) @ xs)
          ((total_len + int (length d)) + int (length (concat xs)))"
    using Cons.prems by (intro Cons.IH) simp_all
  also have "\<dots> = merge_loop cs ov ys docs (cur @ d # xs)
          (total_len + int (length (concat (d # xs))))"
    by (simp add: add.assoc)
  finally show ?case .
qed

lemma strip_replicate:
  assumes "\<not> isspace a"
  shows "strip (replicate n a) = replicate n a"
proof (rule strip_stripped)
  show "stripped (replicate n a)"
    using assms by (cases n) (simp_all add: stripped_def)
qed

lemma split_replicate:
  assumes "2 \<le> n" and "\<not> isspace a"
  shows "recursive_split_text (int n) 0 (replicate (Suc n) a) = Some [replicate n a, [a]]"
proof -
  let ?t = "replicate (Suc n) a"
  have a1: "a \<noteq> newline" "a \<noteq> CHR '' ''"
    using assms(2) isspace_newline isspace_blank by auto
  then have ch: "choose_separator ?t [newline, newline] [[newline], '' '', []] = ([], [])"
    by (intro choose_separator_plain) auto
  have splits: "split_text_with_regex ?t [] = replicate n [a] @ [[a]]"
    by (simp add: split_text_with_regex_def replicate_append_same)
  have unfold: "recursive_split_text (int n) 0 ?t
      = split_loop (int n) 0 None (replicate n [a] @ [[a]]) [] []"
    unfolding recursive_split_text_def
    by (subst split_text_rec.simps) (simp only: ch splits prod.case list.case)
  have short: "\<forall>s \<in> set (replicate n [a] @ [[a]]). int (length s) < int n"
    using assms(1) by auto
  have c: "concat (replicate n [a]) = replicate n a"
    by (induction n) simp_all
  have m1: "merge_loop (int n) 0 (replicate n [a] @ [[a]]) [] [] 0
      = merge_loop (int n) 0 [[a]] [] ([] @ replicate n [a]) (0 + int (length (concat (replicate n [a]))))"
    by (rule merge_loop_prefix_fits) (simp_all add: c)
  have ne: "replicate n [a] \<noteq> []" using assms(1) by auto
  have pop: "pop_front (int n) 0 (int (length [a])) (int n) (replicate n [a]) = Some (0, [])"
    by (rule pop_front_all) (simp_all add: c)
  have m2: "merge_loop (int n) 0 [[a]] [] (replicate n [a]) (int n)
      = Some (join_docs (replicate n [a]) @ join_docs [[a]])"
    using ne pop by simp
  have j1: "join_docs (replicate n [a]) = [replicate n a]"
    using assms by (simp add: join_docs_def c strip_replicate)
  have j2: "join_docs [[a]] = [[a]]"
    using strip_replicate[OF assms(2), of 1] by (simp add: join_docs_def)
  have "merge_splits (int n) 0 (replicate n [a] @ [[a]]) = Some [replicate n a, [a]]"
    unfolding merge_splits_def using m1 m2 j1 j2 by (simp add: c)
  then show ?thesis
    unfolding unfold by (simp add: split_loop_all_good[OF short])
qed

lemma split_5001:
  "recursive_split_text 5000 0 (replicate 5001 (CHR ''a''))
     = Some [replicate 5000 (CHR ''a''), ''a'']"
proof -
  have "\<not> isspace (CHR ''a'')" by (simp add: isspace_def)
  from split_replicate[of 5000, OF _ this] show ?thesis by simp
qed

text \<open>
  Claim C4. For every text, and so for every text longer than 5000 characters, the
  splitter returns chunks that are the stripped forms of consecutive ranges of the text:
  the ranges, concatenated in order, are the text, so nothing is lost and nothing is
  repeated; no range and no chunk is longer than 5000 characters; and the chunks hold the
  same characters in the same order as the text, whitespace apart.
\<close>

theorem long_text_chunks:
  "\<exists>chunks groups. recursive_split_text 5000 0 t = Some chunks
      \<and> concat groups = t
      \<and> chunks = filter (\<lambda>c. c \<noteq> []) (map strip groups)
      \<and> (\<forall>g \<in> set groups. length g \<le> 5000)
      \<and> (\<forall>c \<in> set chunks. length c \<le> 5000)
      \<and> filter (\<lambda>c. \<not> isspace c) (concat chunks) = filter (\<lambda>c. \<not> isspace c) t"
proof -
  have l: "last ([newline, newline] # [[newline], '' '', []]) = []" by simp
  have "\<exists>chunks. split_text_rec 5000 0 t [newline, newline] [[newline], '' '', []] = Some chunks
      \<and> chunks_of 5000 t chunks"
    using l by (intro split_text_rec_chunks) simp_all
  then obtain chunks where c: "recursive_split_text 5000 0 t = Some chunks"
    and co: "chunks_of 5000 t chunks"
    unfolding recursive_split_text_def by blast
  from co obtain groups where g: "concat groups = t"
    "\<forall>g \<in> set groups. int (length g) \<le> 5000"
    "chunks = filter (\<lambda>c. c \<noteq> []) (map strip groups)"
    unfolding chunks_of_def by blast
  have s: "\<forall>c \<in> set chunks. length c \<le> 5000"
    using chunks_of_sizes[OF co] by fastforce
  have f: "filter (\<lambda>c. \<not> isspace c) (concat chunks) = filter (\<lambda>c. \<not> isspace c) t"
    using co by (rule chunks_of_content)
  from g(2) have "\<forall>g \<in> set groups. length g \<le> 5000" by fastforce
  with c g(1,3) s f show ?thesis by blast
qed

theorem long_text_chunks_witness:
  "5000 < length (replicate 5001 (CHR ''a''))
   \<and> recursive_split_text 5000 0 (replicate 5001 (CHR ''a''))
        = Some [replicate 5000 (CHR ''a''), ''a'']
   \<and> (\<exists>groups. concat groups = replicate 5001 (CHR ''a'')
        \<and> [replicate 5000 (CHR ''a''), ''a''] = filter (\<lambda>c. c \<noteq> []) (map strip groups)
        \<and> list_all (\<lambda>g. length g \<le> 5000) groups)"
proof -
  from long_text_chunks[of "replicate 5001 (CHR ''a'')"]
  obtain chunks groups where
    c: "recursive_split_text 5000 0 (replicate 5001 (CHR ''a'')) = Some chunks"
    and g: "concat groups = replicate 5001 (CHR ''a'')"
      "chunks = filter (\<lambda>c. c \<noteq> []) (map strip groups)"
      "\<forall>g \<in> set groups. length g \<le> 5000"
    by blast
  from c have e: "chunks = [replicate 5000 (CHR ''a''), ''a'']"
    by (simp add: split_5001)
  have "concat groups = replicate 5001 (CHR ''a'')
        \<and> [replicate 5000 (CHR ''a''), ''a''] = filter (\<lambda>c. c \<noteq> []) (map strip groups)
        \<and> list_all (\<lambda>g. length g \<le> 5000) groups"
    using g(1) g(2)[unfolded e] g(3) by (simp only: list_all_iff)
  then have "\<exists>groups. concat groups = replicate 5001 (CHR ''a'')
        \<and> [replicate 5000 (CHR ''a''), ''a''] = filter (\<lambda>c. c \<noteq> []) (map strip groups)
        \<and> list_all (\<lambda>g. length g \<le> 5000) groups"
    by (rule exI[of _ groups])
  moreover have "5000 < length (replicate 5001 (CHR ''a''))" by simp
  ultimately show ?thesis using split_5001 by blast
qed

text \<open>
  Claim C5. A non-empty text of at most 5000 characters that has no whitespace at its
  ends is split into one chunk, the text itself; the text that \<open>document_text\<close> extracts
  always has that form, so one prompt with the whole text is sent. The empty text gives no
  chunk; \<open>process_document\<close> does not even split it, returns \<^verbatim>\<open>None\<close> and sends
  nothing, and the review section then finds no extracted data.
\<close>

theorem short_text_one_chunk:
  "(strip t = t \<and> t \<noteq> [] \<and> length t \<le> 5000 \<longrightarrow> recursive_split_text 5000 0 t = Some [t])
   \<and> (document_text file = Inr t \<longrightarrow> strip t = t)
   \<and> (document_text file = Inr t \<and> t \<noteq> [] \<and> length t \<le> 5000 \<longrightarrow>
        snd (process_document (script_env llm) file) = [prompt t])
   \<and> recursive_split_text 5000 0 [] = Some []
   \<and> (document_text file = Inr [] \<longrightarrow>
        process_document env file = (Inr None, [])
        \<and> \<not> has_extracted_data (ss\<lparr>extracted_data := Some None, file_name := Some (name file)\<rparr>))"
proof -
  have a: "recursive_split_text 5000 0 t = Some [t]"
    if "strip t = t" "t \<noteq> []" "length t \<le> 5000" for t
    using that by (intro single_chunk) simp_all
  have b: "strip t = t" if "document_text file = Inr t"
    using that by (rule document_text_stripped)
  have c: "snd (process_document (script_env llm) file) = [prompt t]"
    if "document_text file = Inr t" "t \<noteq> []" "length t \<le> 5000"
  proof -
    have "recursive_split_text 5000 0 t = Some [t]" using b[OF that(1)] that(2,3) by (rule a)
    then have "split_text (script_env llm) t = Inr [t]" by (simp add: script_env_def)
    then show ?thesis
      using that(1,2) by (simp add: process_document_def script_env_def split: sum.splits)
  qed
  have d: "recursive_split_text 5000 0 [] = Some []" by (rule split_empty_text)
  have e: "process_document env file = (Inr None, [])
        \<and> \<not> has_extracted_data (ss\<lparr>extracted_data := Some None, file_name := Some (name file)\<rparr>)"
    if "document_text file = Inr []"
    using that by (simp add: process_document_def has_extracted_data_def)
  from a b c d e show ?thesis by blast
qed

theorem short_text_one_chunk_witness:
  "document_text pdf_file = Inr ''page text''
   \<and> strip ''page text'' = ''page text''
   \<and> recursive_split_text 5000 0 ''page text'' = Some [''page text'']
   \<and> snd (process_document (script_env (\<lambda>k p. Inr ''Item B'')) pdf_file) = [prompt ''page text'']"
proof -
  note w = short_text_one_chunk[of "''page text''" pdf_file "\<lambda>k p. Inr ''Item B''"]
  have s: "strip ''page text'' = ''page text''"
    using w pdf_file_text by blast
  have l: "''page text'' \<noteq> [] \<and> length ''page text'' \<le> 5000" by simp
  have "recursive_split_text 5000 0 ''page text'' = Some [''page text'']"
    using w s l by blast
  moreover have "snd (process_document (script_env (\<lambda>k p. Inr ''Item B'')) pdf_file) = [prompt ''page text'']"
    using w pdf_file_text l by blast
  ultimately show ?thesis using pdf_file_text s by blast
qed

end
